theory Spec2Isabelle
  imports Complex_Main
begin

section \<open>JavaScript values\<close>

text \<open>
  The validator module of the table (\<^verbatim>\<open>packages/table/module/validator/hook.ts\<close>)
  works on untyped cell values. A number is an IEEE double: a finite value or one of
  the three special values; the comparison operators are false as soon as one side
  is \<^verbatim>\<open>NaN\<close>.
\<close>

datatype jsnum = Fin real | PInf | NInf | NaN

datatype jsval =
    JUndefined
  | JNull
  | JBool bool
  | JNum jsnum
  | JStr string
  | JArr "jsval list"
  | JObj "(string \<times> jsval) list"

fun num_lt :: "jsnum \<Rightarrow> jsnum \<Rightarrow> bool" where
  "num_lt NaN _ = False"
| "num_lt _ NaN = False"
| "num_lt (Fin a) (Fin b) = (a < b)"
| "num_lt (Fin a) PInf = True"
| "num_lt (Fin a) NInf = False"
| "num_lt PInf _ = False"
| "num_lt NInf NInf = False"
| "num_lt NInf _ = True"

definition num_gt :: "jsnum \<Rightarrow> jsnum \<Rightarrow> bool" where
  "num_gt a b = num_lt b a"

definition isNaN :: "jsnum \<Rightarrow> bool" where
  "isNaN n = (n = NaN)"

text \<open>Truthiness of a value, as \<^verbatim>\<open>if (v)\<close> and \<^verbatim>\<open>v ? a : b\<close> read it.\<close>

fun truthy :: "jsval \<Rightarrow> bool" where
  "truthy JUndefined = False"
| "truthy JNull = False"
| "truthy (JBool b) = b"
| "truthy (JNum n) = (n \<noteq> NaN \<and> n \<noteq> Fin 0)"
| "truthy (JStr s) = (s \<noteq> [])"
| "truthy (JArr _) = True"
| "truthy (JObj _) = True"

text \<open>
  The functions of the language and of the \<^verbatim>\<open>xe-utils\<close> library whose text is
  not part of the module are parameters of the model: the regular expression test, the
  printing of a number, the two parsers of a string into a number, and the translation
  of a message (\<^verbatim>\<open>getFuncText\<close>).
\<close>

record lib =
  regexp_test :: "string \<Rightarrow> string \<Rightarrow> bool"
  num_to_string :: "jsnum \<Rightarrow> string"
  string_to_num :: "string \<Rightarrow> jsnum"
  parseFloat :: "string \<Rightarrow> jsnum"
  getFuncText :: "string \<Rightarrow> string"

fun join_comma :: "string list \<Rightarrow> string" where
  "join_comma [] = []"
| "join_comma [s] = s"
| "join_comma (s # t # ss) = s @ '','' @ join_comma (t # ss)"

text \<open>The template literal \<^verbatim>\<open>`${val}`\<close>.\<close>

fun to_string :: "lib \<Rightarrow> jsval \<Rightarrow> string" where
  "to_string L JUndefined = ''undefined''"
| "to_string L JNull = ''null''"
| "to_string L (JBool b) = (if b then ''true'' else ''false'')"
| "to_string L (JNum n) = num_to_string L n"
| "to_string L (JStr s) = s"
| "to_string L (JArr xs) =
     join_comma (map (\<lambda>x. if x = JUndefined \<or> x = JNull then [] else to_string L x) xs)"
| "to_string L (JObj _) = ''[object Object]''"

text \<open>The conversion \<^verbatim>\<open>Number(val)\<close>.\<close>

fun Number_js :: "lib \<Rightarrow> jsval \<Rightarrow> jsnum" where
  "Number_js L JUndefined = NaN"
| "Number_js L JNull = Fin 0"
| "Number_js L (JBool b) = (if b then Fin 1 else Fin 0)"
| "Number_js L (JNum n) = n"
| "Number_js L (JStr s) = string_to_num L s"
| "Number_js L (JArr xs) = string_to_num L (to_string L (JArr xs))"
| "Number_js L (JObj fs) = string_to_num L (to_string L (JObj fs))"

text \<open>
  \<^verbatim>\<open>XEUtils.toNumber\<close>: a falsy argument and an argument that \<^verbatim>\<open>parseFloat\<close> does
  not read give 0. \<^verbatim>\<open>XEUtils.eqNull\<close>, \<^verbatim>\<open>XEUtils.isArray\<close> and
  \<^verbatim>\<open>XEUtils.isString\<close> inspect the tag of the value.
\<close>

definition toNumber :: "lib \<Rightarrow> jsval \<Rightarrow> jsnum" where
  "toNumber L v =
     (if truthy v then
        (let num = (case v of JNum n \<Rightarrow> n
                     | JStr s \<Rightarrow> parseFloat L (filter (\<lambda>c. c \<noteq> CHR '','') s)
                     | _ \<Rightarrow> parseFloat L (to_string L v))
         in if \<not> isNaN num then num else Fin 0)
      else Fin 0)"

definition eqNull :: "jsval \<Rightarrow> bool" where
  "eqNull v = (v = JNull \<or> v = JUndefined)"

fun isArray :: "jsval \<Rightarrow> bool" where
  "isArray (JArr _) = True"
| "isArray _ = False"

fun isString :: "jsval \<Rightarrow> bool" where
  "isString (JStr _) = True"
| "isString _ = False"

text \<open>The \<^verbatim>\<open>length\<close> property of an array value.\<close>

fun arr_length :: "jsval \<Rightarrow> nat" where
  "arr_length (JArr xs) = length xs"
| "arr_length _ = 0"

text \<open>
  Modelled from the spec: \<^verbatim>\<open>eqEmptyValue\<close> of \<^verbatim>\<open>ui/src/utils\<close> is not among
  the sources; the specification describes it as the semantic empty-value predicate
  (null, undefined, or the empty string).
\<close>

definition eqEmptyValue :: "jsval \<Rightarrow> bool" where
  "eqEmptyValue v = (v = JNull \<or> v = JUndefined \<or> v = JStr [])"

section \<open>Rules and the rule evaluator\<close>

record column =
  column_id :: string
  column_field :: "string option"

text \<open>
  The parameters handed to a custom validator, and what it returns: nothing that the
  module looks at, an \<^verbatim>\<open>Error\<close> with its message, or a promise, given here with
  the way it settles (a rejection carries the message of its reason, if any).
\<close>

record validParams =
  cellValue :: jsval
  params_row :: jsval
  params_column :: column

datatype settle = Fulfils | Rejects "string option"

datatype customValid = CVoid | CError string | CPromise settle

datatype validator = VName string | VFunc "validParams \<Rightarrow> customValid"

datatype pattern = PatString string | PatRegExp string

record rule =
  required :: bool
  min_rule :: jsval
  max_rule :: jsval
  type_rule :: "string option"
  pattern :: "pattern option"
  validator :: "validator option"
  trigger :: "string option"
  content :: string

text \<open>\<^verbatim>\<open>validREValue\<close>: an absent pattern and the empty string are falsy and test nothing.\<close>

definition validREValue :: "lib \<Rightarrow> pattern option \<Rightarrow> string \<Rightarrow> bool" where
  "validREValue L pat val =
     (case pat of
        None \<Rightarrow> True
      | Some (PatString p) \<Rightarrow> (if p \<noteq> [] \<and> \<not> regexp_test L p val then False else True)
      | Some (PatRegExp p) \<Rightarrow> (if \<not> regexp_test L p val then False else True))"

definition validMaxValue :: "lib \<Rightarrow> jsval \<Rightarrow> jsnum \<Rightarrow> bool" where
  "validMaxValue L mx num = (if \<not> eqNull mx \<and> num_gt num (toNumber L mx) then False else True)"

definition validMinValue :: "lib \<Rightarrow> jsval \<Rightarrow> jsnum \<Rightarrow> bool" where
  "validMinValue L mn num = (if \<not> eqNull mn \<and> num_lt num (toNumber L mn) then False else True)"

definition validRuleValue :: "lib \<Rightarrow> rule \<Rightarrow> jsval \<Rightarrow> bool \<Rightarrow> bool" where
  "validRuleValue L r val req =
     (let isArrType = (type_rule r = Some ''array'');
          isNumType = (type_rule r = Some ''number'');
          isStrType = (type_rule r = Some ''string'');
          strVal = to_string L val
      in if \<not> validREValue L (pattern r) strVal then False
         else if isArrType then
           (if \<not> isArray val then False
            else if req \<and> arr_length val = 0 then False
            else if \<not> validMinValue L (min_rule r) (Fin (real (arr_length val))) then False
            else if \<not> validMaxValue L (max_rule r) (Fin (real (arr_length val))) then False
            else True)
         else if isNumType then
           (let numVal = Number_js L val
            in if isNaN numVal then False
               else if \<not> validMinValue L (min_rule r) numVal then False
               else if \<not> validMaxValue L (max_rule r) numVal then False
               else True)
         else
           (if isStrType \<and> \<not> isString val then False
            else if req \<and> strVal = [] then False
            else if \<not> validMinValue L (min_rule r) (Fin (real (length strVal))) then False
            else if \<not> validMaxValue L (max_rule r) (Fin (real (length strVal))) then False
            else True))"

definition isEmptyVal :: "jsval \<Rightarrow> bool" where
  "isEmptyVal val = (if isArray val then arr_length val = 0 else eqEmptyValue val)"

definition checkRuleStatus :: "lib \<Rightarrow> rule \<Rightarrow> jsval \<Rightarrow> bool" where
  "checkRuleStatus L r val =
     (if required r then
        (if isEmptyVal val then False
         else if \<not> validRuleValue L r val (required r) then False
         else True)
      else
        (if \<not> isEmptyVal val then
           (if \<not> validRuleValue L r val (required r) then False else True)
         else True))"

section \<open>Objects as insertion-ordered property lists\<close>

text \<open>
  The maps of the module (\<^verbatim>\<open>validErrorMaps\<close>, \<^verbatim>\<open>validRest\<close>, \<^verbatim>\<open>editRules\<close>)
  are plain objects. An object is a list of properties with distinct keys in insertion
  order; \<^verbatim>\<open>Object.keys\<close> lists the keys that are array indices first, in
  ascending numeric order, and then the other keys in insertion order.
\<close>

type_synonym 'a obj = "(string \<times> 'a) list"

definition obj_set :: "string \<Rightarrow> 'a \<Rightarrow> 'a obj \<Rightarrow> 'a obj" where
  "obj_set k v m =
     (if k \<in> fst ` set m then map (\<lambda>p. if fst p = k then (k, v) else p) m
      else m @ [(k, v)])"

definition obj_delete :: "string \<Rightarrow> 'a obj \<Rightarrow> 'a obj" where
  "obj_delete k m = filter (\<lambda>p. fst p \<noteq> k) m"

definition isDigit :: "char \<Rightarrow> bool" where
  "isDigit c = (c \<in> set ''0123456789'')"

definition digitsValue :: "string \<Rightarrow> nat" where
  "digitsValue s = foldl (\<lambda>n c. 10 * n + (of_char c - 48)) 0 s"

definition isArrayIndex :: "string \<Rightarrow> bool" where
  "isArrayIndex s =
     (s \<noteq> [] \<and> list_all isDigit s \<and> (s = ''0'' \<or> hd s \<noteq> CHR ''0'')
      \<and> digitsValue s < 4294967295)"

definition objectKeys :: "'a obj \<Rightarrow> string list" where
  "objectKeys m =
     sort_key digitsValue (filter isArrayIndex (map fst m))
     @ filter (\<lambda>k. \<not> isArrayIndex k) (map fst m)"

text \<open>\<^verbatim>\<open>key.split(':')\<close>, and the read of one of its items, undefined out of range.\<close>

fun split_colon :: "string \<Rightarrow> string list" where
  "split_colon [] = [[]]"
| "split_colon (c # cs) =
     (if c = CHR '':'' then [] # split_colon cs
      else (case split_colon cs of [] \<Rightarrow> [[c]] | p # ps \<Rightarrow> (c # p) # ps))"

fun item_at :: "'a list \<Rightarrow> nat \<Rightarrow> 'a option" where
  "item_at [] n = None"
| "item_at (x # xs) 0 = Some x"
| "item_at (x # xs) (Suc n) = item_at xs n"

text \<open>
  A row is an object. \<^verbatim>\<open>XEUtils.get(row, field)\<close> is modelled for a field that
  names a property of the row, and \<^verbatim>\<open>XEUtils.eachTree\<close> as the pre-order walk
  through the items of the children property, which lists the items in the order in
  which the iteratee is called on them.
\<close>

fun get_field :: "jsval \<Rightarrow> string \<Rightarrow> jsval" where
  "get_field (JObj fs) f = (case map_of fs f of Some v \<Rightarrow> v | None \<Rightarrow> JUndefined)"
| "get_field _ f = JUndefined"

fun items_of :: "jsval \<Rightarrow> jsval list" where
  "items_of (JArr xs) = xs"
| "items_of (JObj fs) = map snd fs"
| "items_of _ = []"

definition children_of :: "string \<Rightarrow> jsval \<Rightarrow> jsval list" where
  "children_of c item = (if truthy item then items_of (get_field item c) else [])"

lemma size_map_of_le:
  "map_of fs f = Some v \<Longrightarrow> size v \<le> size_list (size_prod (\<lambda>_. 0) size) fs"
  by (induction fs) (auto split: if_splits)

lemma size_items_of: "size_list size (items_of v) \<le> size v"
proof (cases v)
  case (JObj fs)
  have "size_list size (map snd fs) \<le> size_list (size_prod (\<lambda>_. 0) size) fs"
    by (induction fs) auto
  with JObj show ?thesis by simp
qed simp_all

lemma size_children_of: "size_list size (children_of c item) < Suc (size item)"
proof (cases item)
  case (JObj fs)
  show ?thesis
  proof (cases "map_of fs c")
    case None
    with JObj show ?thesis by (simp add: children_of_def)
  next
    case (Some v)
    have "size_list size (items_of v) \<le> size v" by (rule size_items_of)
    also have "size v \<le> size_list (size_prod (\<lambda>_. 0) size) fs"
      using Some by (rule size_map_of_le)
    finally show ?thesis using JObj Some by (simp add: children_of_def)
  qed
qed (simp_all add: children_of_def)

function eachTree :: "string \<Rightarrow> jsval list \<Rightarrow> jsval list" where
  "eachTree c [] = []"
| "eachTree c (item # rest) = item # eachTree c (children_of c item) @ eachTree c rest"
  by pat_completeness auto
termination
proof (relation "measure (\<lambda>(c, xs). size_list size xs)")
  show "wf (measure (\<lambda>(c, xs). size_list size xs))" by simp
next
  fix c :: string and item :: jsval and rest :: "jsval list"
  show "((c, children_of c item), (c, item # rest)) \<in> measure (\<lambda>(c, xs). size_list size xs)"
    using size_children_of [of c item] by simp
next
  fix c :: string and item :: jsval and rest :: "jsval list"
  show "((c, rest), (c, item # rest)) \<in> measure (\<lambda>(c, xs). size_list size xs)"
    by simp
qed

section \<open>The table and the error map store\<close>

text \<open>
  A failing rule is kept as a \<^verbatim>\<open>Rule\<close> instance: \<^verbatim>\<open>new Rule(rule)\<close> for a built-in
  rule, and for a custom validator a rule of type \<^verbatim>\<open>custom\<close> with the trigger of
  the rule, the message of the failure and the rule itself. Its \<^verbatim>\<open>content\<close> getter
  translates the message.
\<close>

datatype failRule = Builtin rule | Custom "string option" string rule

fun rule_content :: "lib \<Rightarrow> failRule \<Rightarrow> string" where
  "rule_content L (Builtin r) = getFuncText L (content r)"
| "rule_content L (Custom t m r) = getFuncText L m"

fun rule_trigger :: "failRule \<Rightarrow> string option" where
  "rule_trigger (Builtin r) = trigger r"
| "rule_trigger (Custom t m r) = t"

record entry =
  entry_column :: column
  entry_row :: jsval
  entry_rule :: failRule
  entry_content :: string

record gvItem =
  tableCellValidatorMethod :: "(validParams \<Rightarrow> customValid) option"
  cellValidatorMethod :: "(validParams \<Rightarrow> customValid) option"

datatype fieldOrColumn = OfField string | OfColumn column

datatype fcArg = FcNone | FcOne fieldOrColumn | FcMany "fieldOrColumn list"

text \<open>
  What the module reads from the table and from the global configuration and never
  writes: the properties, the computed options, the data of the table, the row
  classification, the registry of validators. \<^verbatim>\<open>handleFieldOrColumn\<close> resolves a field
  name to its column; the module casts its result to a column, and so does the model.
\<close>

record table =
  editRules :: "(rule list) obj option"
  msgMode :: string
  autoPos :: bool
  validToReject :: string
  getColumns :: "column list"
  afterFullData :: "jsval list"
  hasGetInsertRecords :: bool
  getInsertRecords :: "jsval list"
  getUpdateRecords :: "jsval list"
  isRowGroupStatus :: bool
  treeConfig :: bool
  mapChildrenField :: "string option"
  treeOpts_children :: "string option"
  treeOpts_childrenField :: "string option"
  removeRowMaps :: "string \<Rightarrow> bool"
  pendingRowMaps :: "string \<Rightarrow> bool"
  isAggregateRecord :: "jsval \<Rightarrow> bool"
  getRowid :: "jsval \<Rightarrow> string"
  validators :: "string \<Rightarrow> gvItem option"
  handleFieldOrColumn :: "fieldOrColumn \<Rightarrow> column"

text \<open>
  What the module writes: the error map \<^verbatim>\<open>reactData.validErrorMaps\<close>, the shared flag
  \<^verbatim>\<open>validRuleErr\<close>, the time of the last call \<^verbatim>\<open>internalData._lastCallTime\<close>, the
  visibility of the validation store, and the messages given to \<^verbatim>\<open>errLog\<close> and
  \<^verbatim>\<open>warnLog\<close>.
\<close>

record state =
  validErrorMaps :: "entry obj"
  validRuleErr :: bool
  lastCallTime :: nat
  validStore_visible :: bool
  logged :: "(string \<times> string list) list"

definition validKey :: "table \<Rightarrow> jsval \<Rightarrow> column \<Rightarrow> string" where
  "validKey T row col = getRowid T row @ '':'' @ column_id col"

definition rowList_of :: "jsval \<Rightarrow> jsval list" where
  "rowList_of rows = (case rows of JArr xs \<Rightarrow> xs | _ \<Rightarrow> (if truthy rows then [rows] else []))"

fun fc_truthy :: "fieldOrColumn \<Rightarrow> bool" where
  "fc_truthy (OfField f) = (f \<noteq> [])"
| "fc_truthy (OfColumn c) = True"

definition colList_of :: "table \<Rightarrow> fcArg \<Rightarrow> column list" where
  "colList_of T fieldOrColumn =
     map (handleFieldOrColumn T)
       (case fieldOrColumn of
          FcMany xs \<Rightarrow> xs
        | FcOne x \<Rightarrow> (if fc_truthy x then [x] else [])
        | FcNone \<Rightarrow> [])"

definition clearValidate :: "table \<Rightarrow> state \<Rightarrow> jsval \<Rightarrow> fcArg \<Rightarrow> state" where
  "clearValidate T st rows fieldOrColumn =
     (let rowList = rowList_of rows;
          colList = colList_of T fieldOrColumn
      in if msgMode T = ''single'' then st\<lparr>validErrorMaps := []\<rparr>
         else if rowList \<noteq> [] \<and> colList \<noteq> [] then
           st\<lparr>validErrorMaps :=
               foldl (\<lambda>m row. foldl (\<lambda>m col. obj_delete (validKey T row col) m) m colList)
                 (validErrorMaps st) rowList\<rparr>
         else if rowList \<noteq> [] then
           (let rowIdList = map (getRowid T) rowList
            in st\<lparr>validErrorMaps :=
                 filter (\<lambda>(key, item). item_at (split_colon key) 0 \<in> Some ` set rowIdList)
                   (validErrorMaps st)\<rparr>)
         else if colList \<noteq> [] then
           (let colidList = map column_id colList
            in st\<lparr>validErrorMaps :=
                 filter (\<lambda>(key, item). item_at (split_colon key) 1 \<in> Some ` set colidList)
                   (validErrorMaps st)\<rparr>)
         else st\<lparr>validErrorMaps := []\<rparr>)"

record errParams =
  err_rule :: failRule
  err_rules :: "failRule list"
  err_row :: jsval
  err_column :: column
  err_field :: string

definition showValidTooltip :: "lib \<Rightarrow> table \<Rightarrow> state \<Rightarrow> failRule \<Rightarrow> jsval \<Rightarrow> column \<Rightarrow> state" where
  "showValidTooltip L T st rule row col =
     (let item = \<lparr>entry_column = col, entry_row = row, entry_rule = rule,
                  entry_content = rule_content L rule\<rparr>
      in if msgMode T = ''single'' then
           st\<lparr>validStore_visible := True, validErrorMaps := [(validKey T row col, item)]\<rparr>
         else
           st\<lparr>validStore_visible := True,
              validErrorMaps := obj_set (validKey T row col) item (validErrorMaps st)\<rparr>)"

definition handleErrMsgMode :: "table \<Rightarrow> entry obj \<Rightarrow> entry obj" where
  "handleErrMsgMode T validErrMaps =
     (if msgMode T = ''single'' then
        (case objectKeys validErrMaps of
           [] \<Rightarrow> []
         | firstKey # _ \<Rightarrow>
             (case map_of validErrMaps firstKey of
                Some item \<Rightarrow> [(firstKey, item)]
              | None \<Rightarrow> []))
      else validErrMaps)"

section \<open>The cell validation coordinator\<close>

text \<open>
  \<^verbatim>\<open>validCellRules\<close> runs the rules of a field in their order. Its synchronous part
  collects the rules that fail at once in \<^verbatim>\<open>errorRules\<close> and the promises of the
  custom validators in \<^verbatim>\<open>syncValidList\<close> (each kept with its rule); it trips the
  shared flag on a failure and logs a validator that the registry does not provide.
\<close>

record cellAcc =
  acc_state :: state
  errorRules :: "failRule list"
  syncValidList :: "(rule \<times> settle) list"

definition str_truthy :: "string option \<Rightarrow> bool" where
  "str_truthy s = (case s of None \<Rightarrow> False | Some t \<Rightarrow> t \<noteq> [])"

definition tripFlag :: "state \<Rightarrow> state" where
  "tripFlag st = st\<lparr>validRuleErr := True\<rparr>"

definition errLog :: "string \<Rightarrow> string list \<Rightarrow> state \<Rightarrow> state" where
  "errLog key args st = st\<lparr>logged := logged st @ [(key, args)]\<rparr>"

text \<open>The call of the validator of a rule: the value returned, if a call was made, and the state.\<close>

definition callValidator ::
  "table \<Rightarrow> validator \<Rightarrow> validParams \<Rightarrow> state \<Rightarrow> customValid option \<times> state" where
  "callValidator T v validParams st =
     (case v of
        VName name \<Rightarrow>
          (case validators T name of
             Some gvItem \<Rightarrow>
               (case (case tableCellValidatorMethod gvItem of
                        Some m \<Rightarrow> Some m
                      | None \<Rightarrow> cellValidatorMethod gvItem) of
                  Some tcvMethod \<Rightarrow> (Some (tcvMethod validParams), st)
                | None \<Rightarrow> (None, errLog ''vxe.error.notValidators'' [name] st))
           | None \<Rightarrow> (None, errLog ''vxe.error.notValidators'' [name] st))
      | VFunc f \<Rightarrow> (Some (f validParams), st))"

text \<open>
  \<^verbatim>\<open>if (validator)\<close>: an absent validator and the empty string are falsy, and the rule
  is then a built-in rule; a function and a name that is not empty are truthy.
\<close>

definition truthyValidator :: "validator option \<Rightarrow> validator option" where
  "truthyValidator v =
     (case v of
        Some (VName name) \<Rightarrow> (if name \<noteq> [] then v else None)
      | _ \<Rightarrow> v)"

definition applyRule ::
  "lib \<Rightarrow> table \<Rightarrow> string \<Rightarrow> jsval \<Rightarrow> column \<Rightarrow> jsval \<Rightarrow> cellAcc \<Rightarrow> rule \<Rightarrow> cellAcc" where
  "applyRule L T validType row col cellVal acc r =
     (if validType = ''all'' \<or> \<not> str_truthy (trigger r) \<or> Some validType = trigger r then
        (case truthyValidator (validator r) of
           Some v \<Rightarrow>
             (let validParams = \<lparr>cellValue = cellVal, params_row = row, params_column = col\<rparr>;
                  (customValid, st) = callValidator T v validParams (acc_state acc);
                  acc1 = acc\<lparr>acc_state := st\<rparr>
              in case customValid of
                   Some (CError message) \<Rightarrow>
                     acc1\<lparr>acc_state := tripFlag st,
                          errorRules := errorRules acc1 @ [Custom (trigger r) message r]\<rparr>
                 | Some (CPromise p) \<Rightarrow>
                     acc1\<lparr>syncValidList := syncValidList acc1 @ [(r, p)]\<rparr>
                 | _ \<Rightarrow> acc1)
         | None \<Rightarrow>
             (if \<not> checkRuleStatus L r cellVal then
                acc\<lparr>acc_state := tripFlag (acc_state acc),
                    errorRules := errorRules acc @ [Builtin r]\<rparr>
              else acc))
      else acc)"

definition validCellRules ::
  "lib \<Rightarrow> table \<Rightarrow> string \<Rightarrow> jsval \<Rightarrow> column \<Rightarrow> jsval \<Rightarrow> state \<Rightarrow> cellAcc" where
  "validCellRules L T validType row col val st =
     (let acc = \<lparr>acc_state = st, errorRules = [], syncValidList = []\<rparr>
      in case (column_field col, editRules T) of
           (Some field, Some rulesObj) \<Rightarrow>
             (if field \<noteq> [] then
                (case map_of rulesObj field of
                   Some rules \<Rightarrow>
                     (let cellVal = (if val = JUndefined then get_field row field else val)
                      in foldl (applyRule L T validType row col cellVal) acc rules)
                 | None \<Rightarrow> acc)
              else acc)
         | _ \<Rightarrow> acc)"

text \<open>
  When a promise of \<^verbatim>\<open>syncValidList\<close> is rejected, its handler trips the flag and
  appends a custom rule, with the message of the reason or else the message of the
  rule. The cell is settled when all its promises are; the promises are taken to
  settle in the order in which they were created. The cell then fails, with its
  \<^verbatim>\<open>errorRules\<close>, if there is any.
\<close>

fun rejectedRules :: "(rule \<times> settle) list \<Rightarrow> failRule list" where
  "rejectedRules [] = []"
| "rejectedRules ((r, Fulfils) # ps) = rejectedRules ps"
| "rejectedRules ((r, Rejects e) # ps) =
     Custom (trigger r) (case e of Some m \<Rightarrow> (if m \<noteq> [] then m else content r)
                         | None \<Rightarrow> content r) r
     # rejectedRules ps"

definition settledRules :: "cellAcc \<Rightarrow> failRule list" where
  "settledRules acc = errorRules acc @ rejectedRules (syncValidList acc)"

section \<open>The dataset walker and the validation session\<close>

text \<open>
  A cell handed to \<^verbatim>\<open>validCellRules\<close> by the walker, with what the synchronous part
  of the call left: the rules that failed at once and the promises still to settle.
\<close>

record cell =
  cell_row :: jsval
  cell_column :: column
  cell_field :: string
  cell_errorRules :: "failRule list"
  cell_syncValidList :: "(rule \<times> settle) list"

definition has_field :: "'a obj option \<Rightarrow> string option \<Rightarrow> bool" where
  "has_field rulesObj field =
     (case (rulesObj, field) of
        (Some m, Some f) \<Rightarrow> f \<in> fst ` set m
      | _ \<Rightarrow> False)"

definition visitColumn ::
  "lib \<Rightarrow> table \<Rightarrow> bool \<Rightarrow> jsval \<Rightarrow> state \<times> cell list \<Rightarrow> column \<Rightarrow> state \<times> cell list" where
  "visitColumn L T isFull row w col =
     (let st = fst w; colVailds = snd w; field = column_field col
      in if (isFull \<or> \<not> validRuleErr st) \<and> has_field (editRules T) field then
           (let acc = validCellRules L T ''all'' row col JUndefined st
            in (acc_state acc,
                colVailds @ [\<lparr>cell_row = row, cell_column = col,
                               cell_field = (case field of Some f \<Rightarrow> f
                                             | None \<Rightarrow> ''undefined''),
                               cell_errorRules = errorRules acc,
                               cell_syncValidList = syncValidList acc\<rparr>]))
         else w)"

definition handleVaild ::
  "lib \<Rightarrow> table \<Rightarrow> bool \<Rightarrow> column list \<Rightarrow> state \<times> cell list list \<Rightarrow> jsval
     \<Rightarrow> state \<times> cell list list" where
  "handleVaild L T isFull columns w row =
     (let st = fst w; rowValidErrs = snd w; rowid = getRowid T row
      in if removeRowMaps T rowid then w
         else if pendingRowMaps T rowid then w
         else if isAggregateRecord T row then w
         else if isFull \<or> \<not> validRuleErr st then
           (let (st', colVailds) = foldl (visitColumn L T isFull row) (st, []) columns
            in (st', rowValidErrs @ [colVailds]))
         else w)"

text \<open>\<^verbatim>\<open>validList.forEach(handleVaild)\<close>, over the rows in the order of the visit.\<close>

definition walkRows ::
  "lib \<Rightarrow> table \<Rightarrow> bool \<Rightarrow> column list \<Rightarrow> state \<times> cell list list \<Rightarrow> jsval list
     \<Rightarrow> state \<times> cell list list" where
  "walkRows L T isFull columns w rows = foldl (handleVaild L T isFull columns) w rows"

text \<open>
  The first argument of a validation call is a value (\<^verbatim>\<open>true\<close>, a row, an array of
  rows, or nothing) or a function, which is then the callback. The callback itself is
  opaque: the model keeps whether one was given, and the calls made to it.
\<close>

datatype rowsArg = RowsVal jsval | RowsFunc

type_synonym validRest = "(errParams list) obj"

datatype outcome = Resolved "validRest option" | Rejected validRest | RejectedTypeError

record result =
  outcome :: outcome
  cb_calls :: "validRest option list"

record session =
  sess_editRules :: bool
  sess_isFull :: bool
  sess_cb :: bool
  rowValidErrs :: "cell list list"

definition orElse :: "string option \<Rightarrow> string option \<Rightarrow> string option" where
  "orElse a b = (if str_truthy a then a else b)"

definition childrenOpt :: "string option \<Rightarrow> string" where
  "childrenOpt c = (case orElse c (Some ''children'') of Some f \<Rightarrow> f | None \<Rightarrow> ''children'')"

definition validList_of :: "table \<Rightarrow> rowsArg \<Rightarrow> jsval list" where
  "validList_of T rows =
     (case (if rows = RowsVal (JBool True) then Some (afterFullData T)
            else (case rows of
                    RowsFunc \<Rightarrow> None
                  | RowsVal v \<Rightarrow>
                      (if truthy v then Some (case v of JArr xs \<Rightarrow> xs | _ \<Rightarrow> [v]) else None))) of
        Some validList \<Rightarrow> validList
      | None \<Rightarrow>
          (if hasGetInsertRecords T then getInsertRecords T @ getUpdateRecords T else []))"

definition visitOrder :: "table \<Rightarrow> jsval list \<Rightarrow> jsval list" where
  "visitOrder T validList =
     (if isRowGroupStatus T then eachTree (childrenOpt (mapChildrenField T)) validList
      else if treeConfig T then
        eachTree (childrenOpt (orElse (treeOpts_children T) (treeOpts_childrenField T))) validList
      else validList)"

text \<open>
  The synchronous part of \<^verbatim>\<open>beginValidate\<close>: it records the time of the call, resets
  the flag, clears the error map and walks the rows; what remains to be done when the
  promises settle is kept in the session.
\<close>

definition beginValidate_start ::
  "lib \<Rightarrow> table \<Rightarrow> nat \<Rightarrow> rowsArg \<Rightarrow> column list option \<Rightarrow> bool \<Rightarrow> bool \<Rightarrow> state
     \<Rightarrow> state \<times> session" where
  "beginValidate_start L T now rows cols cb isFull st =
     (let cb' = (if rows = RowsFunc then True else cb);
          validList = validList_of T rows;
          st1 = clearValidate T (st\<lparr>lastCallTime := now, validRuleErr := False\<rparr>)
                  JUndefined FcNone
      in if editRules T \<noteq> None then
           (let columns = (case cols of
                             Some cs \<Rightarrow> (if cs \<noteq> [] then cs else getColumns T)
                           | None \<Rightarrow> getColumns T);
                w = walkRows L T isFull columns (st1, []) (visitOrder T validList)
            in (fst w, \<lparr>sess_editRules = True, sess_isFull = isFull, sess_cb = cb',
                        rowValidErrs = snd w\<rparr>))
         else
           (st1\<lparr>validErrorMaps := []\<rparr>,
            \<lparr>sess_editRules = False, sess_isFull = isFull, sess_cb = cb', rowValidErrs = []\<rparr>))"

text \<open>
  The handler of a failed cell records it in \<^verbatim>\<open>validRest\<close> under its field and in
  \<^verbatim>\<open>validErrMaps\<close> under its key; in the fail-fast mode it trips the flag and rejects,
  and the first rejection is the one that \<^verbatim>\<open>Promise.all\<close> passes on. The order in
  which promises settle is not fixed by the program. The model takes one schedule: the
  cells of a session settle in the order in which they were handed out, and all of
  them have settled when the session goes on. Sessions may still overlap: the
  synchronous part of a later call may run before an earlier session settles.
\<close>

record collected =
  coll_flag :: bool
  validRest :: validRest
  validErrMaps :: "entry obj"
  rejections :: "errParams list"

definition obj_push :: "string \<Rightarrow> 'a \<Rightarrow> ('a list) obj \<Rightarrow> ('a list) obj" where
  "obj_push k v m =
     (case map_of m k of
        Some vs \<Rightarrow> obj_set k (vs @ [v]) m
      | None \<Rightarrow> m @ [(k, [v])])"

definition settleCell :: "lib \<Rightarrow> table \<Rightarrow> bool \<Rightarrow> collected \<Rightarrow> cell \<Rightarrow> collected" where
  "settleCell L T isFull c x =
     (let c1 = c\<lparr>coll_flag := coll_flag c \<or> rejectedRules (cell_syncValidList x) \<noteq> []\<rparr>
      in case cell_errorRules x @ rejectedRules (cell_syncValidList x) of
           [] \<Rightarrow> c1
         | rule # others \<Rightarrow>
             (let rest = \<lparr>err_rule = rule, err_rules = rule # others, err_row = cell_row x,
                          err_column = cell_column x, err_field = cell_field x\<rparr>;
                  item = \<lparr>entry_column = cell_column x, entry_row = cell_row x,
                          entry_rule = rule, entry_content = rule_content L rule\<rparr>;
                  c2 = c1\<lparr>validErrMaps :=
                            obj_set (validKey T (cell_row x) (cell_column x)) item (validErrMaps c1),
                          validRest := obj_push (cell_field x) rest (validRest c1)\<rparr>
              in if \<not> isFull then c2\<lparr>coll_flag := True, rejections := rejections c2 @ [rest]\<rparr>
                 else c2))"

definition settleAll :: "lib \<Rightarrow> table \<Rightarrow> bool \<Rightarrow> cell list list \<Rightarrow> collected" where
  "settleAll L T isFull rws =
     foldl (settleCell L T isFull)
       \<lparr>coll_flag = False, validRest = [], validErrMaps = [], rejections = []\<rparr> (concat rws)"

text \<open>
  The end of a failed session. With automatic positioning the table scrolls to the
  cell and enters it, and \<^verbatim>\<open>handleValidError\<close> shows the tooltip; the scrolling and
  the editing belong to the table and are taken to complete. \<^verbatim>\<open>finish\<close> then calls
  the callback with the failures, or settles the promise with them.
\<close>

definition handleValidError :: "lib \<Rightarrow> table \<Rightarrow> state \<Rightarrow> errParams \<Rightarrow> state" where
  "handleValidError L T st params =
     (if \<not> autoPos T then st
      else showValidTooltip L T st (err_rule params) (err_row params) (err_column params))"

definition finish :: "table \<Rightarrow> bool \<Rightarrow> validRest \<Rightarrow> result" where
  "finish T cb rest =
     (if cb then \<lparr>outcome = Resolved None, cb_calls = [Some rest]\<rparr>
      else if validToReject T = ''obsolete'' then \<lparr>outcome = Rejected rest, cb_calls = []\<rparr>
      else \<lparr>outcome = Resolved (Some rest), cb_calls = []\<rparr>)"

definition catchValid ::
  "lib \<Rightarrow> table \<Rightarrow> bool \<Rightarrow> validRest \<Rightarrow> errParams \<Rightarrow> state \<Rightarrow> state \<times> result" where
  "catchValid L T cb rest firstErrParams st =
     (if \<not> autoPos T then (st, finish T cb rest)
      else (handleValidError L T st firstErrParams, finish T cb rest))"

text \<open>
  The part of \<^verbatim>\<open>beginValidate\<close> that runs once the promises of the session have
  settled. If a cell has rejected, \<^verbatim>\<open>Promise.all\<close> rejects and the merge into the
  error map is passed over; otherwise the failures are merged and, if there are any,
  the first failure of the first field is the one reported.
\<close>

definition beginValidate_finish :: "lib \<Rightarrow> table \<Rightarrow> session \<Rightarrow> state \<Rightarrow> state \<times> result" where
  "beginValidate_finish L T s st =
     (if \<not> sess_editRules s then
        (st, \<lparr>outcome = Resolved None, cb_calls = (if sess_cb s then [None] else [])\<rparr>)
      else
        (let c = settleAll L T (sess_isFull s) (rowValidErrs s);
             st1 = st\<lparr>validRuleErr := validRuleErr st \<or> coll_flag c\<rparr>
         in case rejections c of
              firstErrParams # _ \<Rightarrow> catchValid L T (sess_cb s) (validRest c) firstErrParams st1
            | [] \<Rightarrow>
                (let ruleProps = objectKeys (validRest c);
                     st2 = st1\<lparr>validErrorMaps := handleErrMsgMode T (validErrMaps c)\<rparr>
                 in case ruleProps of
                      [] \<Rightarrow> (st2, \<lparr>outcome = Resolved None,
                                   cb_calls = (if sess_cb s then [None] else [])\<rparr>)
                    | p # _ \<Rightarrow>
                        (case map_of (validRest c) p of
                           Some (firstErrParams # _) \<Rightarrow>
                             catchValid L T (sess_cb s) (validRest c) firstErrParams st2
                         | _ \<Rightarrow> (st2, \<lparr>outcome = RejectedTypeError, cb_calls = []\<rparr>)))))"

text \<open>A session that no other call interleaves with.\<close>

definition beginValidate ::
  "lib \<Rightarrow> table \<Rightarrow> nat \<Rightarrow> rowsArg \<Rightarrow> column list option \<Rightarrow> bool \<Rightarrow> bool \<Rightarrow> state
     \<Rightarrow> state \<times> result" where
  "beginValidate L T now rows cols cb isFull st =
     (let (st1, s) = beginValidate_start L T now rows cols cb isFull st
      in beginValidate_finish L T s st1)"

definition fullValidate ::
  "lib \<Rightarrow> table \<Rightarrow> nat \<Rightarrow> rowsArg \<Rightarrow> bool \<Rightarrow> state \<Rightarrow> state \<times> result" where
  "fullValidate L T now rows cb st =
     beginValidate L T now rows None cb True
       (if cb then errLog ''vxe.error.notValidators''
                     [''fullValidate(rows, callback)'', ''fullValidate(rows)''] st
        else st)"

definition validate ::
  "lib \<Rightarrow> table \<Rightarrow> nat \<Rightarrow> rowsArg \<Rightarrow> bool \<Rightarrow> state \<Rightarrow> state \<times> result" where
  "validate L T now rows cb st = beginValidate L T now rows None cb False st"

definition fullValidateField ::
  "lib \<Rightarrow> table \<Rightarrow> nat \<Rightarrow> rowsArg \<Rightarrow> fcArg \<Rightarrow> state \<Rightarrow> state \<times> result" where
  "fullValidateField L T now rows fieldOrColumn st =
     (let colList = colList_of T fieldOrColumn
      in if colList \<noteq> [] then beginValidate L T now rows (Some colList) False True st
         else (st, \<lparr>outcome = Resolved None, cb_calls = []\<rparr>))"

definition validateField ::
  "lib \<Rightarrow> table \<Rightarrow> nat \<Rightarrow> rowsArg \<Rightarrow> fcArg \<Rightarrow> state \<Rightarrow> state \<times> result" where
  "validateField L T now rows fieldOrColumn st =
     (let colList = colList_of T fieldOrColumn
      in if colList \<noteq> [] then beginValidate L T now rows (Some colList) False False st
         else (st, \<lparr>outcome = Resolved None, cb_calls = []\<rparr>))"

section \<open>Predicates and invariants used in the theorems\<close>

text \<open>
  A rule applies to a validation of a given type if the type is \<^verbatim>\<open>all\<close>, the rule has
  no trigger, or its trigger is the type. A validator name is unregistered if the
  registry does not know it, or knows it without a method for cells. A row is skipped
  if it is removed, pending deletion or an aggregate record.
\<close>

definition applicable :: "string \<Rightarrow> rule \<Rightarrow> bool" where
  "applicable validType r =
     (validType = ''all'' \<or> \<not> str_truthy (trigger r) \<or> Some validType = trigger r)"

definition unregistered :: "table \<Rightarrow> string \<Rightarrow> bool" where
  "unregistered T name =
     (case validators T name of
        None \<Rightarrow> True
      | Some gvItem \<Rightarrow>
          tableCellValidatorMethod gvItem = None \<and> cellValidatorMethod gvItem = None)"

definition skipRow :: "table \<Rightarrow> jsval \<Rightarrow> bool" where
  "skipRow T row =
     (removeRowMaps T (getRowid T row) \<or> pendingRowMaps T (getRowid T row)
      \<or> isAggregateRecord T row)"

text \<open>Two accumulators of a cell that differ at most in the messages logged.\<close>

definition sameButLog :: "cellAcc \<Rightarrow> cellAcc \<Rightarrow> bool" where
  "sameButLog a b =
     (errorRules a = errorRules b \<and> syncValidList a = syncValidList b
      \<and> (acc_state a)\<lparr>logged := []\<rparr> = (acc_state b)\<lparr>logged := []\<rparr>)"

text \<open>The cells of one row, with the state before and after the visit of its columns.\<close>

definition okCells :: "state \<Rightarrow> jsval \<Rightarrow> state \<Rightarrow> cell list \<Rightarrow> bool" where
  "okCells st row st' cs =
     ((\<forall>x \<in> set cs. cell_row x = row)
      \<and> validErrorMaps st' = validErrorMaps st \<and> lastCallTime st' = lastCallTime st
      \<and> validStore_visible st' = validStore_visible st
      \<and> validRuleErr st' = (validRuleErr st \<or> (\<exists>x \<in> set cs. cell_errorRules x \<noteq> [])))"

text \<open>What a walk from a state and a list of dispatched rows has added and kept.\<close>

definition walkInv :: "table \<Rightarrow> state \<Rightarrow> cell list list \<Rightarrow> jsval list \<Rightarrow> state \<times> cell list list \<Rightarrow> bool" where
  "walkInv T st rws rows w =
     ((\<exists>more. snd w = rws @ more
         \<and> (\<forall>x \<in> set (concat more). cell_row x \<in> set rows \<and> \<not> skipRow T (cell_row x))
         \<and> validRuleErr (fst w) = (validRuleErr st \<or> (\<exists>x \<in> set (concat more). cell_errorRules x \<noteq> [])))
      \<and> validErrorMaps (fst w) = validErrorMaps st \<and> lastCallTime (fst w) = lastCallTime st
      \<and> validStore_visible (fst w) = validStore_visible st)"


text \<open>
  A cell fails if a rule failed at once or a promise was rejected. The failure record
  and the entry of the error map that the handler of a failed cell makes, and the entry
  that \<^verbatim>\<open>showValidTooltip\<close> makes from a failure record.
\<close>

definition cellRules :: "cell \<Rightarrow> failRule list" where
  "cellRules x = cell_errorRules x @ rejectedRules (cell_syncValidList x)"

definition cellFails :: "cell \<Rightarrow> bool" where
  "cellFails x = (cellRules x \<noteq> [])"

definition errParamsOf :: "cell \<Rightarrow> errParams" where
  "errParamsOf x =
     \<lparr>err_rule = hd (cellRules x), err_rules = cellRules x, err_row = cell_row x,
      err_column = cell_column x, err_field = cell_field x\<rparr>"

definition entryOf :: "lib \<Rightarrow> errParams \<Rightarrow> entry" where
  "entryOf L p =
     \<lparr>entry_column = err_column p, entry_row = err_row p, entry_rule = err_rule p,
      entry_content = rule_content L (err_rule p)\<rparr>"

definition keyOf :: "table \<Rightarrow> errParams \<Rightarrow> string" where
  "keyOf T p = validKey T (err_row p) (err_column p)"

text \<open>
  What holds of the failures collected from a list of settled cells: the fields of
  \<^verbatim>\<open>validRest\<close> are distinct and none is empty, every record, entry and rejection
  comes from a cell that fails, every cell that fails is recorded, and there is a
  rejection exactly in the fail-fast mode when a cell fails.
\<close>

definition settleInv :: "lib \<Rightarrow> table \<Rightarrow> bool \<Rightarrow> cell list \<Rightarrow> collected \<Rightarrow> bool" where
  "settleInv L T isFull xs c =
     (distinct (map fst (validRest c))
      \<and> (\<forall>(f, ps) \<in> set (validRest c).
            ps \<noteq> [] \<and> (\<forall>p \<in> set ps. \<exists>x \<in> set xs. cellFails x \<and> p = errParamsOf x))
      \<and> (\<forall>(k, e) \<in> set (validErrMaps c).
            \<exists>x \<in> set xs. cellFails x \<and> e = entryOf L (errParamsOf x)
                           \<and> k = keyOf T (errParamsOf x))
      \<and> (\<forall>p \<in> set (rejections c). \<exists>x \<in> set xs. cellFails x \<and> p = errParamsOf x)
      \<and> (\<forall>x \<in> set xs. cellFails x \<longrightarrow>
            keyOf T (errParamsOf x) \<in> fst ` set (validErrMaps c)
            \<and> (\<exists>ps. (cell_field x, ps) \<in> set (validRest c) \<and> errParamsOf x \<in> set ps))
      \<and> (rejections c = [] \<longleftrightarrow> (isFull \<or> \<not> (\<exists>x \<in> set xs. cellFails x)))
      \<and> (validRest c = [] \<longleftrightarrow> \<not> (\<exists>x \<in> set xs. cellFails x)))"

text \<open>The failures that a result hands to the caller: to the callback, or with the promise.\<close>

definition failuresOf :: "result \<Rightarrow> validRest" where
  "failuresOf r =
     (case cb_calls r of
        Some rest # _ \<Rightarrow> rest
      | _ \<Rightarrow> (case outcome r of
                Rejected rest \<Rightarrow> rest
              | Resolved (Some rest) \<Rightarrow> rest
              | _ \<Rightarrow> []))"

text \<open>
  The state in which a settled session reports its first failure: the flag is updated,
  and the failures are merged into the error map unless a cell has rejected.
\<close>

definition mergedState :: "lib \<Rightarrow> table \<Rightarrow> session \<Rightarrow> state \<Rightarrow> state" where
  "mergedState L T s st =
     (let c = settleAll L T (sess_isFull s) (rowValidErrs s);
          st1 = st\<lparr>validRuleErr := validRuleErr st \<or> coll_flag c\<rparr>
      in if rejections c = [] then st1\<lparr>validErrorMaps := handleErrMsgMode T (validErrMaps c)\<rparr>
         else st1)"

section \<open>A small table for the examples\<close>

text \<open>
  One column for the field \<^verbatim>\<open>name\<close>, which a single rule requires; a row is
  identified by its property \<^verbatim>\<open>id\<close>. Nothing is removed, pending or aggregated, and
  the registry of validators is empty.
\<close>

definition demoColumn :: "string \<Rightarrow> column" where
  "demoColumn f = \<lparr>column_id = ''col_'' @ f, column_field = Some f\<rparr>"

definition demoRequired :: rule where
  "demoRequired = \<lparr>required = True, min_rule = JUndefined, max_rule = JUndefined,
     type_rule = None, pattern = None, validator = None, trigger = None,
     content = ''required''\<rparr>"

definition demoNumber :: "bool \<Rightarrow> rule" where
  "demoNumber req = \<lparr>required = req, min_rule = JUndefined, max_rule = JUndefined,
     type_rule = Some ''number'', pattern = None, validator = None, trigger = None,
     content = ''number''\<rparr>"

definition demoTable :: table where
  "demoTable = \<lparr>editRules = Some [(''name'', [demoRequired])],
     msgMode = ''multi'', autoPos = True, validToReject = ''default'',
     getColumns = [demoColumn ''name''], afterFullData = [],
     hasGetInsertRecords = True, getInsertRecords = [], getUpdateRecords = [],
     isRowGroupStatus = False, treeConfig = False, mapChildrenField = None,
     treeOpts_children = None, treeOpts_childrenField = None,
     removeRowMaps = (\<lambda>rowid. False), pendingRowMaps = (\<lambda>rowid. False),
     isAggregateRecord = (\<lambda>row. False),
     getRowid = (\<lambda>row. case get_field row ''id'' of JStr s \<Rightarrow> s | _ \<Rightarrow> []),
     validators = (\<lambda>name. None),
     handleFieldOrColumn = (\<lambda>x. case x of OfColumn c \<Rightarrow> c | OfField f \<Rightarrow> demoColumn f)\<rparr>"

definition demoRow :: "string \<Rightarrow> string \<Rightarrow> jsval" where
  "demoRow i n = JObj [(''id'', JStr i), (''name'', JStr n)]"

definition demoEntry :: "string \<Rightarrow> entry" where
  "demoEntry i = \<lparr>entry_column = demoColumn ''name'', entry_row = demoRow i [],
     entry_rule = Builtin demoRequired, entry_content = ''required''\<rparr>"

definition demoState :: "entry obj \<Rightarrow> state" where
  "demoState m = \<lparr>validErrorMaps = m, validRuleErr = False, lastCallTime = 0,
     validStore_visible = False, logged = []\<rparr>"

definition demoNamed :: rule where
  "demoNamed = \<lparr>required = True, min_rule = JUndefined, max_rule = JUndefined,
     type_rule = None, pattern = None, validator = Some (VName ''missing''), trigger = None,
     content = ''named''\<rparr>"

definition demoParams :: "string \<Rightarrow> errParams" where
  "demoParams i = \<lparr>err_rule = Builtin demoRequired, err_rules = [Builtin demoRequired],
     err_row = demoRow i [], err_column = demoColumn ''name'', err_field = ''name''\<rparr>"

definition demoSession :: "bool \<Rightarrow> bool \<Rightarrow> string list \<Rightarrow> session" where
  "demoSession isFull cb ids =
     \<lparr>sess_editRules = True, sess_isFull = isFull, sess_cb = cb,
      rowValidErrs = map (\<lambda>i. [\<lparr>cell_row = demoRow i [], cell_column = demoColumn ''name'',
                                 cell_field = ''name'', cell_errorRules = [Builtin demoRequired],
                                 cell_syncValidList = []\<rparr>]) ids\<rparr>"

definition demoAsync :: rule where
  "demoAsync = \<lparr>required = False, min_rule = JUndefined, max_rule = JUndefined,
     type_rule = None, pattern = None,
     validator = Some (VFunc (\<lambda>p. if cellValue p = JStr ''dup''
                                      then CPromise (Rejects (Some ''taken''))
                                      else CPromise Fulfils)),
     trigger = None, content = ''async''\<rparr>"

definition demoAsyncTable :: table where
  "demoAsyncTable = demoTable\<lparr>editRules := Some [(''name'', [demoAsync])]\<rparr>"

lemmas demo_defs =
  demoColumn_def demoRequired_def demoNumber_def demoTable_def demoRow_def demoEntry_def
  demoState_def demoNamed_def demoAsync_def demoAsyncTable_def

lemmas session_defs =
  validate_def fullValidate_def beginValidate_def beginValidate_start_def
  beginValidate_finish_def clearValidate_def rowList_of_def colList_of_def validList_of_def
  visitOrder_def walkRows_def handleVaild_def visitColumn_def has_field_def validCellRules_def
  applyRule_def truthyValidator_def callValidator_def str_truthy_def checkRuleStatus_def
  isEmptyVal_def
  eqEmptyValue_def tripFlag_def errLog_def settleAll_def settleCell_def obj_set_def
  obj_push_def validKey_def catchValid_def finish_def handleValidError_def
  showValidTooltip_def handleErrMsgMode_def objectKeys_def isArrayIndex_def Let_def
  validRuleValue_def validREValue_def validMinValue_def validMaxValue_def eqNull_def

section \<open>Lemmas on the cell validation coordinator\<close>

lemma callValidator_unregistered:
  "unregistered T name \<Longrightarrow>
     callValidator T (VName name) p st = (None, errLog ''vxe.error.notValidators'' [name] st)"
  by (auto simp add: callValidator_def unregistered_def split: option.splits)

lemma callValidator_value: "fst (callValidator T v p st) = fst (callValidator T v p st')"
  by (simp add: callValidator_def split: validator.splits option.splits)

lemma callValidator_state:
  "(snd (callValidator T v p st))\<lparr>logged := []\<rparr> = st\<lparr>logged := []\<rparr>"
  by (simp add: callValidator_def errLog_def split: validator.splits option.splits)

lemma callValidator_logged:
  "set (logged st) \<subseteq> set (logged (snd (callValidator T v p st)))"
  by (auto simp add: callValidator_def errLog_def split: validator.splits option.splits)

lemma applyRule_unregistered:
  assumes "validator r = Some (VName name)" and "name \<noteq> []" and "unregistered T name"
    and "applicable validType r"
  shows "applyRule L T validType row col v acc r
           = acc\<lparr>acc_state := errLog ''vxe.error.notValidators'' [name] (acc_state acc)\<rparr>"
  using assms
  by (simp add: applyRule_def truthyValidator_def applicable_def callValidator_unregistered)

lemma state_nolog_eq:
  "(s::state)\<lparr>logged := []\<rparr> = t\<lparr>logged := []\<rparr> \<longleftrightarrow>
     validErrorMaps s = validErrorMaps t \<and> validRuleErr s = validRuleErr t \<and> lastCallTime s = lastCallTime t
     \<and> validStore_visible s = validStore_visible t"
  by (cases s, cases t) auto

lemma applyRule_builtin:
  "truthyValidator (validator r) = None \<Longrightarrow>
     applyRule L T validType row col v a r
       = (if applicable validType r \<and> \<not> checkRuleStatus L r v
          then a\<lparr>acc_state := tripFlag (acc_state a), errorRules := errorRules a @ [Builtin r]\<rparr>
          else a)"
  by (simp add: applyRule_def applicable_def)

text \<open>A rule whose validator is the empty string is evaluated as a built-in rule.\<close>

lemma applyRule_empty_name:
  "validator r = Some (VName []) \<Longrightarrow>
     applyRule L T validType row col v a r
       = (if applicable validType r \<and> \<not> checkRuleStatus L r v
          then a\<lparr>acc_state := tripFlag (acc_state a), errorRules := errorRules a @ [Builtin r]\<rparr>
          else a)"
  by (rule applyRule_builtin) (simp add: truthyValidator_def)

lemma applyRule_custom:
  assumes "truthyValidator (validator r) = Some w"
    and "callValidator T w \<lparr>cellValue = v, params_row = row, params_column = col\<rparr> (acc_state a)
           = (cv, sa)"
  shows "applyRule L T validType row col v a r
       = (if applicable validType r then
            (case cv of
               Some (CError message) \<Rightarrow>
                 a\<lparr>acc_state := tripFlag sa,
                    errorRules := errorRules a @ [Custom (trigger r) message r]\<rparr>
             | Some (CPromise q) \<Rightarrow>
                 a\<lparr>acc_state := sa, syncValidList := syncValidList a @ [(r, q)]\<rparr>
             | _ \<Rightarrow> a\<lparr>acc_state := sa\<rparr>)
          else a)"
  using assms
  by (simp add: applyRule_def applicable_def Let_def split: option.splits customValid.splits)

lemma applyRule_sameButLog:
  assumes "sameButLog a b"
  shows "sameButLog (applyRule L T validType row col v a r) (applyRule L T validType row col v b r)"
proof (cases "truthyValidator (validator r)")
  case None
  with assms show ?thesis
    by (simp add: applyRule_builtin sameButLog_def tripFlag_def state_nolog_eq)
next
  case (Some w)
  define p where "p = \<lparr>cellValue = v, params_row = row, params_column = col\<rparr>"
  obtain cv sa where ca: "callValidator T w p (acc_state a) = (cv, sa)"
    by (cases "callValidator T w p (acc_state a)")
  obtain cv' sb where cb: "callValidator T w p (acc_state b) = (cv', sb)"
    by (cases "callValidator T w p (acc_state b)")
  have cv: "cv' = cv"
    using ca cb callValidator_value [of T w p "acc_state a" "acc_state b"] by simp
  have st: "sa\<lparr>logged := []\<rparr> = sb\<lparr>logged := []\<rparr>"
    using ca cb callValidator_state [of T w p "acc_state a"]
      callValidator_state [of T w p "acc_state b"] assms
    by (simp add: sameButLog_def)
  show ?thesis
    unfolding applyRule_custom [OF Some ca [unfolded p_def]]
      applyRule_custom [OF Some cb [unfolded p_def]] cv
    using assms st
    by (simp add: sameButLog_def tripFlag_def state_nolog_eq
        split: option.splits customValid.splits)
qed

lemma foldl_applyRule_sameButLog:
  "sameButLog a b \<Longrightarrow>
     sameButLog (foldl (applyRule L T validType row col v) a rs)
                (foldl (applyRule L T validType row col v) b rs)"
  by (induction rs arbitrary: a b) (simp_all add: applyRule_sameButLog)

lemma applyRule_logged:
  "set (logged (acc_state a)) \<subseteq> set (logged (acc_state (applyRule L T validType row col v a r)))"
proof (cases "truthyValidator (validator r)")
  case None
  then show ?thesis by (simp add: applyRule_builtin tripFlag_def)
next
  case (Some w)
  define p where "p = \<lparr>cellValue = v, params_row = row, params_column = col\<rparr>"
  obtain cv sa where ca: "callValidator T w p (acc_state a) = (cv, sa)"
    by (cases "callValidator T w p (acc_state a)")
  have "set (logged (acc_state a)) \<subseteq> set (logged sa)"
    using callValidator_logged [of "acc_state a" T w p] ca by simp
  then show ?thesis
    unfolding applyRule_custom [OF Some ca [unfolded p_def]]
    by (simp add: tripFlag_def split: option.splits customValid.splits)
qed

lemma foldl_applyRule_logged:
  "set (logged (acc_state a)) \<subseteq> set (logged (acc_state (foldl (applyRule L T validType row col v) a rs)))"
proof (induction rs arbitrary: a)
  case Nil
  then show ?case by simp
next
  case (Cons r rs)
  show ?case using Cons [of "applyRule L T validType row col v a r"] applyRule_logged [of a L T validType row col v r]
    by auto
qed


lemma callValidator_same_validators:
  assumes "validators T' = validators T"
  shows "callValidator T' w p st = callValidator T w p st"
  unfolding callValidator_def assms ..

lemma applyRule_same_validators:
  assumes "validators T' = validators T"
  shows "applyRule L T' validType row col v a r = applyRule L T validType row col v a r"
  unfolding applyRule_def callValidator_same_validators [OF assms] ..

lemma foldl_applyRule_same_validators:
  assumes "validators T' = validators T"
  shows "foldl (applyRule L T' validType row col v) a rs
           = foldl (applyRule L T validType row col v) a rs"
  by (induction rs arbitrary: a) (simp_all add: applyRule_same_validators [OF assms])

lemma foldl_applyRule_skip:
  assumes "validator r = Some (VName name)" and "name \<noteq> []" and "unregistered T name"
    and "applicable validType r"
  shows "sameButLog (foldl (applyRule L T validType row col v) a (rs1 @ r # rs2))
           (foldl (applyRule L T validType row col v) a (rs1 @ rs2))"
    and "(''vxe.error.notValidators'', [name])
           \<in> set (logged (acc_state (foldl (applyRule L T validType row col v) a (rs1 @ r # rs2))))"
proof -
  let ?f = "applyRule L T validType row col v"
  let ?a1 = "foldl ?f a rs1"
  have step: "?f ?a1 r = ?a1\<lparr>acc_state := errLog ''vxe.error.notValidators'' [name] (acc_state ?a1)\<rparr>"
    using assms by (rule applyRule_unregistered)
  have "sameButLog (?f ?a1 r) ?a1"
    unfolding step by (simp add: sameButLog_def errLog_def)
  then have "sameButLog (foldl ?f (?f ?a1 r) rs2) (foldl ?f ?a1 rs2)"
    by (rule foldl_applyRule_sameButLog)
  then show "sameButLog (foldl ?f a (rs1 @ r # rs2)) (foldl ?f a (rs1 @ rs2))"
    by simp
  have "(''vxe.error.notValidators'', [name]) \<in> set (logged (acc_state (?f ?a1 r)))"
    unfolding step by (simp add: errLog_def)
  then have "(''vxe.error.notValidators'', [name]) \<in> set (logged (acc_state (foldl ?f (?f ?a1 r) rs2)))"
    using foldl_applyRule_logged [of "?f ?a1 r" L T validType row col v rs2] by blast
  then show "(''vxe.error.notValidators'', [name])
           \<in> set (logged (acc_state (foldl ?f a (rs1 @ r # rs2))))"
    by simp
qed

lemma validCellRules_rules:
  assumes "editRules T = Some rulesObj" and "column_field col = Some field" and "field \<noteq> []"
    and "map_of rulesObj field = Some rs"
  shows "validCellRules L T validType row col val st
           = foldl (applyRule L T validType row col
                      (if val = JUndefined then get_field row field else val))
               \<lparr>acc_state = st, errorRules = [], syncValidList = []\<rparr> rs"
  using assms by (simp add: validCellRules_def)

section \<open>Lemmas on the dataset walker\<close>

lemma applyRule_frame:
  "validErrorMaps (acc_state (applyRule L T validType row col v a r)) = validErrorMaps (acc_state a)
   \<and> lastCallTime (acc_state (applyRule L T validType row col v a r)) = lastCallTime (acc_state a)
   \<and> validStore_visible (acc_state (applyRule L T validType row col v a r))
       = validStore_visible (acc_state a)"
proof (cases "truthyValidator (validator r)")
  case None
  then show ?thesis by (simp add: applyRule_builtin tripFlag_def)
next
  case (Some w)
  define p where "p = \<lparr>cellValue = v, params_row = row, params_column = col\<rparr>"
  obtain cv sa where ca: "callValidator T w p (acc_state a) = (cv, sa)"
    by (cases "callValidator T w p (acc_state a)")
  have "sa\<lparr>logged := []\<rparr> = (acc_state a)\<lparr>logged := []\<rparr>"
    using callValidator_state [of T w p "acc_state a"] ca by simp
  then have "validErrorMaps sa = validErrorMaps (acc_state a) \<and> lastCallTime sa = lastCallTime (acc_state a)
     \<and> validStore_visible sa = validStore_visible (acc_state a)"
    by (simp add: state_nolog_eq)
  then show ?thesis
    unfolding applyRule_custom [OF Some ca [unfolded p_def]]
    by (simp add: tripFlag_def split: option.splits customValid.splits)
qed

lemma applyRule_flag:
  "\<exists>new. errorRules (applyRule L T validType row col v a r) = errorRules a @ new
     \<and> validRuleErr (acc_state (applyRule L T validType row col v a r))
         = (validRuleErr (acc_state a) \<or> new \<noteq> [])"
proof (cases "truthyValidator (validator r)")
  case None
  then show ?thesis by (simp add: applyRule_builtin tripFlag_def)
next
  case (Some w)
  define p where "p = \<lparr>cellValue = v, params_row = row, params_column = col\<rparr>"
  obtain cv sa where ca: "callValidator T w p (acc_state a) = (cv, sa)"
    by (cases "callValidator T w p (acc_state a)")
  have "sa\<lparr>logged := []\<rparr> = (acc_state a)\<lparr>logged := []\<rparr>"
    using callValidator_state [of T w p "acc_state a"] ca by simp
  then have "validRuleErr sa = validRuleErr (acc_state a)"
    by (simp add: state_nolog_eq)
  then show ?thesis
    unfolding applyRule_custom [OF Some ca [unfolded p_def]]
    by (simp add: tripFlag_def split: option.splits customValid.splits)
qed

lemma foldl_applyRule_frame:
  "validErrorMaps (acc_state (foldl (applyRule L T validType row col v) a rs)) = validErrorMaps (acc_state a)
   \<and> lastCallTime (acc_state (foldl (applyRule L T validType row col v) a rs)) = lastCallTime (acc_state a)
   \<and> validStore_visible (acc_state (foldl (applyRule L T validType row col v) a rs))
       = validStore_visible (acc_state a)"
  by (induction rs arbitrary: a) (simp_all add: applyRule_frame)

lemma foldl_applyRule_flag:
  "\<exists>new. errorRules (foldl (applyRule L T validType row col v) a rs) = errorRules a @ new
     \<and> validRuleErr (acc_state (foldl (applyRule L T validType row col v) a rs))
         = (validRuleErr (acc_state a) \<or> new \<noteq> [])"
proof (induction rs arbitrary: a)
  case Nil
  then show ?case by simp
next
  case (Cons r rs)
  let ?b = "applyRule L T validType row col v a r"
  obtain n1 where n1: "errorRules ?b = errorRules a @ n1"
    "validRuleErr (acc_state ?b) = (validRuleErr (acc_state a) \<or> n1 \<noteq> [])"
    using applyRule_flag [of L T validType row col v a r] by blast
  obtain n2 where n2: "errorRules (foldl (applyRule L T validType row col v) ?b rs) = errorRules ?b @ n2"
    "validRuleErr (acc_state (foldl (applyRule L T validType row col v) ?b rs))
         = (validRuleErr (acc_state ?b) \<or> n2 \<noteq> [])"
    using Cons [of ?b] by blast
  show ?case
    by (rule exI [of _ "n1 @ n2"]) (simp add: n1 n2)
qed

lemma validCellRules_foldl:
  "\<exists>v rs. validCellRules L T validType row col val st
            = foldl (applyRule L T validType row col v)
                \<lparr>acc_state = st, errorRules = [], syncValidList = []\<rparr> rs"
proof (cases "\<exists>field rulesObj rs. editRules T = Some rulesObj \<and> column_field col = Some field
                 \<and> field \<noteq> [] \<and> map_of rulesObj field = Some rs")
  case True
  then obtain field rulesObj rs where "editRules T = Some rulesObj" "column_field col = Some field"
      "field \<noteq> []" "map_of rulesObj field = Some rs"
    by blast
  then show ?thesis
    using validCellRules_rules [of T rulesObj col field rs L validType row val st] by blast
next
  case False
  then have "validCellRules L T validType row col val st
      = foldl (applyRule L T validType row col val)
          \<lparr>acc_state = st, errorRules = [], syncValidList = []\<rparr> []"
    by (auto simp add: validCellRules_def Let_def split: option.splits)
  then show ?thesis by blast
qed

lemma validCellRules_frame:
  "validErrorMaps (acc_state (validCellRules L T validType row col val st)) = validErrorMaps st
   \<and> lastCallTime (acc_state (validCellRules L T validType row col val st)) = lastCallTime st
   \<and> validStore_visible (acc_state (validCellRules L T validType row col val st))
       = validStore_visible st"
proof -
  obtain v rs where "validCellRules L T validType row col val st
            = foldl (applyRule L T validType row col v)
                \<lparr>acc_state = st, errorRules = [], syncValidList = []\<rparr> rs"
    using validCellRules_foldl by blast
  then show ?thesis
    using foldl_applyRule_frame [of L T validType row col v
        "\<lparr>acc_state = st, errorRules = [], syncValidList = []\<rparr>" rs]
    by simp
qed

lemma validCellRules_flag:
  "validRuleErr (acc_state (validCellRules L T validType row col val st))
     = (validRuleErr st \<or> errorRules (validCellRules L T validType row col val st) \<noteq> [])"
proof -
  obtain v rs where "validCellRules L T validType row col val st
            = foldl (applyRule L T validType row col v)
                \<lparr>acc_state = st, errorRules = [], syncValidList = []\<rparr> rs"
    using validCellRules_foldl by blast
  then show ?thesis
    using foldl_applyRule_flag [of L T validType row col v
        "\<lparr>acc_state = st, errorRules = [], syncValidList = []\<rparr>" rs]
    by auto
qed

lemma visitColumn_cases:
  "visitColumn L T isFull row (st, cs) col = (st, cs) \<or>
   (\<exists>st' x. visitColumn L T isFull row (st, cs) col = (st', cs @ [x])
      \<and> cell_row x = row \<and> cell_column x = col
      \<and> validErrorMaps st' = validErrorMaps st \<and> lastCallTime st' = lastCallTime st
      \<and> validStore_visible st' = validStore_visible st
      \<and> validRuleErr st' = (validRuleErr st \<or> cell_errorRules x \<noteq> []))"
  using validCellRules_frame [of L T "''all''" row col JUndefined st]
    validCellRules_flag [of L T "''all''" row col JUndefined st]
  by (simp add: visitColumn_def Let_def)

lemma foldl_visitColumn:
  "okCells st0 row st cs \<Longrightarrow>
     okCells st0 row (fst (foldl (visitColumn L T isFull row) (st, cs) columns))
       (snd (foldl (visitColumn L T isFull row) (st, cs) columns))"
proof (induction columns arbitrary: st cs)
  case Nil
  then show ?case by simp
next
  case (Cons col columns)
  from visitColumn_cases [of L T isFull row st cs col]
  show ?case
  proof
    assume "visitColumn L T isFull row (st, cs) col = (st, cs)"
    then show ?thesis using Cons by simp
  next
    assume "\<exists>st' x. visitColumn L T isFull row (st, cs) col = (st', cs @ [x])
      \<and> cell_row x = row \<and> cell_column x = col
      \<and> validErrorMaps st' = validErrorMaps st \<and> lastCallTime st' = lastCallTime st
      \<and> validStore_visible st' = validStore_visible st
      \<and> validRuleErr st' = (validRuleErr st \<or> cell_errorRules x \<noteq> [])"
    then obtain st' x where v: "visitColumn L T isFull row (st, cs) col = (st', cs @ [x])"
      and x: "cell_row x = row" "validErrorMaps st' = validErrorMaps st"
        "lastCallTime st' = lastCallTime st" "validStore_visible st' = validStore_visible st"
        "validRuleErr st' = (validRuleErr st \<or> cell_errorRules x \<noteq> [])"
      by blast
    have "okCells st0 row st' (cs @ [x])"
      using Cons.prems x by (auto simp add: okCells_def)
    then show ?thesis using Cons.IH [of st' "cs @ [x]"] v by simp
  qed
qed

lemma handleVaild_skip:
  "skipRow T row \<Longrightarrow> handleVaild L T isFull columns w row = w"
  by (auto simp add: handleVaild_def skipRow_def Let_def)

lemma handleVaild_tripped:
  "validRuleErr (fst w) \<Longrightarrow> handleVaild L T False columns w row = w"
  by (simp add: handleVaild_def Let_def)

lemma handleVaild_cases:
  "handleVaild L T isFull columns (st, rws) row = (st, rws) \<or>
   (\<exists>st' cs. handleVaild L T isFull columns (st, rws) row = (st', rws @ [cs])
      \<and> okCells st row st' cs \<and> \<not> skipRow T row)"
proof -
  let ?w = "foldl (visitColumn L T isFull row) (st, []) columns"
  have "okCells st row st []" by (simp add: okCells_def)
  then have "okCells st row (fst ?w) (snd ?w)" by (rule foldl_visitColumn)
  then show ?thesis
    by (auto simp add: handleVaild_def skipRow_def Let_def split: prod.splits)
qed

lemma walkRows_Nil: "walkRows L T isFull columns w [] = w"
  by (simp add: walkRows_def)

lemma walkRows_Cons:
  "walkRows L T isFull columns w (row # rows)
     = walkRows L T isFull columns (handleVaild L T isFull columns w row) rows"
  by (simp add: walkRows_def)

lemma walkRows_append:
  "walkRows L T isFull columns w (xs @ ys)
     = walkRows L T isFull columns (walkRows L T isFull columns w xs) ys"
  by (simp add: walkRows_def)

lemma walkRows_tripped:
  "validRuleErr (fst w) \<Longrightarrow> walkRows L T False columns w rows = w"
  by (induction rows) (simp_all add: walkRows_Nil walkRows_Cons handleVaild_tripped)

lemma walkRows_inv:
  "walkInv T st rws rows (walkRows L T isFull columns (st, rws) rows)"
proof (induction rows arbitrary: st rws)
  case Nil
  show ?case by (simp add: walkRows_Nil walkInv_def)
next
  case (Cons row rows)
  from handleVaild_cases [of L T isFull columns st rws row]
  show ?case
  proof
    assume h: "handleVaild L T isFull columns (st, rws) row = (st, rws)"
    obtain more where m: "snd (walkRows L T isFull columns (st, rws) rows) = rws @ more"
        "\<forall>x \<in> set (concat more). cell_row x \<in> set rows \<and> \<not> skipRow T (cell_row x)"
        "validRuleErr (fst (walkRows L T isFull columns (st, rws) rows))
           = (validRuleErr st \<or> (\<exists>x \<in> set (concat more). cell_errorRules x \<noteq> []))"
      and f: "validErrorMaps (fst (walkRows L T isFull columns (st, rws) rows)) = validErrorMaps st"
        "lastCallTime (fst (walkRows L T isFull columns (st, rws) rows)) = lastCallTime st"
        "validStore_visible (fst (walkRows L T isFull columns (st, rws) rows)) = validStore_visible st"
      using Cons [of st rws] unfolding walkInv_def by blast
    show ?thesis
      unfolding walkInv_def walkRows_Cons h
      using m f by (intro conjI exI [of _ more]) auto
  next
    assume "\<exists>st' cs. handleVaild L T isFull columns (st, rws) row = (st', rws @ [cs])
      \<and> okCells st row st' cs \<and> \<not> skipRow T row"
    then obtain st' cs where h: "handleVaild L T isFull columns (st, rws) row = (st', rws @ [cs])"
      and ok: "okCells st row st' cs" and ns: "\<not> skipRow T row"
      by blast
    obtain more where m: "snd (walkRows L T isFull columns (st', rws @ [cs]) rows) = (rws @ [cs]) @ more"
        "\<forall>x \<in> set (concat more). cell_row x \<in> set rows \<and> \<not> skipRow T (cell_row x)"
        "validRuleErr (fst (walkRows L T isFull columns (st', rws @ [cs]) rows))
           = (validRuleErr st' \<or> (\<exists>x \<in> set (concat more). cell_errorRules x \<noteq> []))"
      and f: "validErrorMaps (fst (walkRows L T isFull columns (st', rws @ [cs]) rows)) = validErrorMaps st'"
        "lastCallTime (fst (walkRows L T isFull columns (st', rws @ [cs]) rows)) = lastCallTime st'"
        "validStore_visible (fst (walkRows L T isFull columns (st', rws @ [cs]) rows)) = validStore_visible st'"
      using Cons [of st' "rws @ [cs]"] unfolding walkInv_def by blast
    show ?thesis
      unfolding walkInv_def walkRows_Cons h
      using m f ok ns by (intro conjI exI [of _ "cs # more"]) (auto simp add: okCells_def)
  qed
qed

section \<open>Lemmas on objects and on the settling of cells\<close>

lemma map_fst_obj_set:
  "map fst (obj_set k v m) = (if k \<in> fst ` set m then map fst m else map fst m @ [k])"
proof -
  have "map fst (map (\<lambda>p. if fst p = k then (k, v) else p) m) = map fst m"
    by (induction m) auto
  then show ?thesis by (simp add: obj_set_def)
qed

lemma keys_obj_set: "fst ` set (obj_set k v m) = insert k (fst ` set m)"
proof -
  have "fst ` set (obj_set k v m) = set (map fst (obj_set k v m))" by simp
  also have "\<dots> = insert k (fst ` set m)"
    unfolding map_fst_obj_set by auto
  finally show ?thesis .
qed

lemma set_obj_set: "set (obj_set k v m) \<subseteq> insert (k, v) (set m)"
  by (auto simp add: obj_set_def split: if_splits)

lemma obj_set_mem: "(k, v) \<in> set (obj_set k v m)"
  by (force simp add: obj_set_def image_iff)

lemma distinct_obj_set: "distinct (map fst m) \<Longrightarrow> distinct (map fst (obj_set k v m))"
  by (auto simp add: map_fst_obj_set)

lemma obj_set_other: "k' \<noteq> k \<Longrightarrow> (k', v') \<in> set (obj_set k v m) \<longleftrightarrow> (k', v') \<in> set m"
  by (auto simp add: obj_set_def)

lemma length_obj_set_Nil: "obj_set k v [] = [(k, v)]"
  by (simp add: obj_set_def)

lemma set_objectKeys: "set (objectKeys m) = fst ` set m"
  by (auto simp add: objectKeys_def)

lemma objectKeys_Nil: "objectKeys m = [] \<longleftrightarrow> m = []"
  using set_objectKeys [of m] by (metis image_is_empty set_empty)

lemma obj_push_distinct: "distinct (map fst m) \<Longrightarrow> distinct (map fst (obj_push k v m))"
  by (auto simp add: obj_push_def distinct_obj_set split: option.splits dest: map_of_SomeD
      simp: map_of_eq_None_iff)

lemma obj_push_mem: "\<exists>ps. (k, ps) \<in> set (obj_push k v m) \<and> v \<in> set ps"
proof (cases "map_of m k")
  case None
  then show ?thesis by (auto simp add: obj_push_def)
next
  case (Some vs)
  then have "(k, vs @ [v]) \<in> set (obj_push k v m)"
    by (simp add: obj_push_def obj_set_mem)
  then show ?thesis by force
qed

lemma obj_push_origin:
  assumes "(f, ps) \<in> set (obj_push k v m)" and "p \<in> set ps"
  shows "(f = k \<and> p = v) \<or> (\<exists>ps'. (f, ps') \<in> set m \<and> p \<in> set ps')"
proof (cases "map_of m k")
  case None
  with assms show ?thesis by (auto simp add: obj_push_def)
next
  case (Some vs)
  then have m: "(k, vs) \<in> set m" by (rule map_of_SomeD)
  from assms(1) Some have "(f, ps) = (k, vs @ [v]) \<or> (f, ps) \<in> set m"
    using set_obj_set [of k "vs @ [v]" m] by (auto simp add: obj_push_def)
  then show ?thesis using assms(2) m by auto
qed

lemma obj_push_mono:
  assumes "distinct (map fst m)" and "(f, ps) \<in> set m" and "p \<in> set ps"
  shows "\<exists>ps'. (f, ps') \<in> set (obj_push k v m) \<and> p \<in> set ps'"
proof (cases "f = k")
  case True
  have "map_of m k = Some ps" using assms(1,2) True by simp
  then have "(k, ps @ [v]) \<in> set (obj_push k v m)"
    by (simp add: obj_push_def obj_set_mem)
  then show ?thesis using True assms(3) by force
next
  case False
  then have "(f, ps) \<in> set (obj_push k v m)"
    using assms(2) by (auto simp add: obj_push_def obj_set_other split: option.splits)
  then show ?thesis using assms(3) by blast
qed

lemma obj_push_nonempty:
  assumes "\<forall>(f, ps) \<in> set m. ps \<noteq> []" and "(f, ps) \<in> set (obj_push k v m)"
  shows "ps \<noteq> []"
proof (cases "map_of m k")
  case None
  with assms show ?thesis by (auto simp add: obj_push_def)
next
  case (Some vs)
  from assms(2) Some have "(f, ps) = (k, vs @ [v]) \<or> (f, ps) \<in> set m"
    using set_obj_set [of k "vs @ [v]" m] by (auto simp add: obj_push_def)
  then show ?thesis using assms(1) by auto
qed

lemma obj_push_not_Nil: "obj_push k v m \<noteq> []"
  using obj_push_mem [where k = k and v = v and m = m] by auto

lemma obj_set_mono_keys: "k' \<in> fst ` set m \<Longrightarrow> k' \<in> fst ` set (obj_set k v m)"
  by (simp add: keys_obj_set)

lemma settleCell_pass: "\<not> cellFails x \<Longrightarrow> settleCell L T isFull c x = c"
  by (simp add: settleCell_def cellFails_def cellRules_def)

lemma settleCell_fail:
  assumes "cellFails x"
  shows "validErrMaps (settleCell L T isFull c x)
           = obj_set (keyOf T (errParamsOf x)) (entryOf L (errParamsOf x)) (validErrMaps c)"
    and "validRest (settleCell L T isFull c x)
           = obj_push (cell_field x) (errParamsOf x) (validRest c)"
    and "rejections (settleCell L T isFull c x)
           = (if isFull then rejections c else rejections c @ [errParamsOf x])"
proof -
  obtain rule others where r: "cell_errorRules x @ rejectedRules (cell_syncValidList x) = rule # others"
    using assms by (cases "cell_errorRules x @ rejectedRules (cell_syncValidList x)")
      (simp_all add: cellFails_def cellRules_def)
  have e: "errParamsOf x = \<lparr>err_rule = rule, err_rules = rule # others, err_row = cell_row x,
      err_column = cell_column x, err_field = cell_field x\<rparr>"
    using r by (simp add: errParamsOf_def cellRules_def)
  show "validErrMaps (settleCell L T isFull c x)
           = obj_set (keyOf T (errParamsOf x)) (entryOf L (errParamsOf x)) (validErrMaps c)"
    unfolding e by (simp add: settleCell_def r Let_def entryOf_def keyOf_def)
  show "validRest (settleCell L T isFull c x)
           = obj_push (cell_field x) (errParamsOf x) (validRest c)"
    unfolding e by (simp add: settleCell_def r Let_def)
  show "rejections (settleCell L T isFull c x)
           = (if isFull then rejections c else rejections c @ [errParamsOf x])"
    unfolding e by (simp add: settleCell_def r Let_def)
qed

lemma settleInv_step:
  assumes inv: "settleInv L T isFull xs c"
  shows "settleInv L T isFull (xs @ [x]) (settleCell L T isFull c x)"
proof (cases "cellFails x")
  case False
  then show ?thesis
    using inv unfolding settleInv_def settleCell_pass [OF False]
    by (simp add: split_def)
next
  case True
  let ?p = "errParamsOf x"
  let ?c = "settleCell L T isFull c x"
  note eqs = settleCell_fail [OF True, of L T isFull c]
  from inv have d: "distinct (map fst (validRest c))"
    and r: "\<forall>(f, ps) \<in> set (validRest c).
            ps \<noteq> [] \<and> (\<forall>p \<in> set ps. \<exists>x \<in> set xs. cellFails x \<and> p = errParamsOf x)"
    and e: "\<forall>(k, e) \<in> set (validErrMaps c).
            \<exists>x \<in> set xs. cellFails x \<and> e = entryOf L (errParamsOf x) \<and> k = keyOf T (errParamsOf x)"
    and j: "\<forall>p \<in> set (rejections c). \<exists>x \<in> set xs. cellFails x \<and> p = errParamsOf x"
    and m: "\<forall>x \<in> set xs. cellFails x \<longrightarrow>
            keyOf T (errParamsOf x) \<in> fst ` set (validErrMaps c)
            \<and> (\<exists>ps. (cell_field x, ps) \<in> set (validRest c) \<and> errParamsOf x \<in> set ps)"
    and jn: "rejections c = [] \<longleftrightarrow> (isFull \<or> \<not> (\<exists>x \<in> set xs. cellFails x))"
    unfolding settleInv_def by blast+
  have c1: "distinct (map fst (validRest ?c))"
    unfolding eqs using d by (rule obj_push_distinct)
  have c2: "\<forall>(f, ps) \<in> set (validRest ?c).
            ps \<noteq> [] \<and> (\<forall>p \<in> set ps. \<exists>y \<in> set (xs @ [x]). cellFails y \<and> p = errParamsOf y)"
  proof (clarify, intro conjI ballI)
    fix f ps
    assume fp: "(f, ps) \<in> set (validRest ?c)"
    have "\<forall>(f, ps) \<in> set (validRest c). ps \<noteq> []" using r by blast
    then show "ps \<noteq> []" using fp unfolding eqs by (rule obj_push_nonempty)
    fix p assume "p \<in> set ps"
    then have "(f = cell_field x \<and> p = ?p) \<or> (\<exists>ps'. (f, ps') \<in> set (validRest c) \<and> p \<in> set ps')"
      using fp unfolding eqs by (rule obj_push_origin [rotated])
    then show "\<exists>y \<in> set (xs @ [x]). cellFails y \<and> p = errParamsOf y"
      using True r by auto
  qed
  have c3: "\<forall>(k, e) \<in> set (validErrMaps ?c).
            \<exists>y \<in> set (xs @ [x]). cellFails y \<and> e = entryOf L (errParamsOf y) \<and> k = keyOf T (errParamsOf y)"
  proof (clarify)
    fix k e'
    assume "(k, e') \<in> set (validErrMaps ?c)"
    then have "(k, e') = (keyOf T ?p, entryOf L ?p) \<or> (k, e') \<in> set (validErrMaps c)"
      unfolding eqs using set_obj_set [of "keyOf T ?p" "entryOf L ?p" "validErrMaps c"] by auto
    then show "\<exists>y \<in> set (xs @ [x]). cellFails y \<and> e' = entryOf L (errParamsOf y) \<and> k = keyOf T (errParamsOf y)"
      using True e by auto
  qed
  have c4: "\<forall>p \<in> set (rejections ?c). \<exists>y \<in> set (xs @ [x]). cellFails y \<and> p = errParamsOf y"
    unfolding eqs using True j by auto
  have c5: "\<forall>y \<in> set (xs @ [x]). cellFails y \<longrightarrow>
            keyOf T (errParamsOf y) \<in> fst ` set (validErrMaps ?c)
            \<and> (\<exists>ps. (cell_field y, ps) \<in> set (validRest ?c) \<and> errParamsOf y \<in> set ps)"
  proof (intro ballI impI)
    fix y assume y: "y \<in> set (xs @ [x])" and fy: "cellFails y"
    show "keyOf T (errParamsOf y) \<in> fst ` set (validErrMaps ?c)
            \<and> (\<exists>ps. (cell_field y, ps) \<in> set (validRest ?c) \<and> errParamsOf y \<in> set ps)"
    proof (cases "y = x")
      case True
      then show ?thesis
        unfolding eqs using obj_push_mem [of "cell_field x" ?p "validRest c"]
        by (simp add: keys_obj_set)
    next
      case False
      then have "y \<in> set xs" using y by simp
      then have "keyOf T (errParamsOf y) \<in> fst ` set (validErrMaps c)"
        and "\<exists>ps. (cell_field y, ps) \<in> set (validRest c) \<and> errParamsOf y \<in> set ps"
        using m fy by blast+
      then show ?thesis
        unfolding eqs using obj_push_mono [OF d, of "cell_field y" _ "errParamsOf y" "cell_field x" ?p]
        by (auto simp add: keys_obj_set)
    qed
  qed
  have c6: "rejections ?c = [] \<longleftrightarrow> (isFull \<or> \<not> (\<exists>y \<in> set (xs @ [x]). cellFails y))"
    unfolding eqs using True jn by auto
  have c7: "validRest ?c = [] \<longleftrightarrow> \<not> (\<exists>y \<in> set (xs @ [x]). cellFails y)"
    unfolding eqs using True by (simp add: obj_push_not_Nil)
  show ?thesis
    unfolding settleInv_def using c1 c2 c3 c4 c5 c6 c7 by blast
qed

lemma settleInv_foldl:
  "settleInv L T isFull xs c \<Longrightarrow>
     settleInv L T isFull (xs @ ys) (foldl (settleCell L T isFull) c ys)"
proof (induction ys arbitrary: xs c)
  case Nil
  then show ?case by simp
next
  case (Cons y ys)
  have "settleInv L T isFull (xs @ [y]) (settleCell L T isFull c y)"
    using Cons.prems by (rule settleInv_step)
  then have "settleInv L T isFull ((xs @ [y]) @ ys)
     (foldl (settleCell L T isFull) (settleCell L T isFull c y) ys)"
    by (rule Cons.IH)
  then show ?case by simp
qed

lemma settleAll_inv: "settleInv L T isFull (concat rws) (settleAll L T isFull rws)"
proof -
  have "settleInv L T isFull []
     \<lparr>coll_flag = False, validRest = [], validErrMaps = [], rejections = []\<rparr>"
    by (simp add: settleInv_def)
  then have "settleInv L T isFull ([] @ concat rws)
     (foldl (settleCell L T isFull)
        \<lparr>coll_flag = False, validRest = [], validErrMaps = [], rejections = []\<rparr> (concat rws))"
    by (rule settleInv_foldl)
  then show ?thesis by (simp add: settleAll_def)
qed

section \<open>Lemmas on the end of a session\<close>

lemma clearValidate_all:
  "clearValidate T st JUndefined FcNone = st\<lparr>validErrorMaps := []\<rparr>"
  by (simp add: clearValidate_def rowList_of_def colList_of_def)

lemma showValidTooltip_eq:
  "showValidTooltip L T st (err_rule p) (err_row p) (err_column p)
     = st\<lparr>validStore_visible := True,
          validErrorMaps := (if msgMode T = ''single'' then [(keyOf T p, entryOf L p)]
                             else obj_set (keyOf T p) (entryOf L p) (validErrorMaps st))\<rparr>"
  by (simp add: showValidTooltip_def keyOf_def entryOf_def)

lemma catchValid_eq:
  "catchValid L T cb rest p st
     = (if autoPos T then
          st\<lparr>validStore_visible := True,
             validErrorMaps := (if msgMode T = ''single'' then [(keyOf T p, entryOf L p)]
                                else obj_set (keyOf T p) (entryOf L p) (validErrorMaps st))\<rparr>
        else st, finish T cb rest)"
  by (simp add: catchValid_def handleValidError_def showValidTooltip_eq)

lemma set_handleErrMsgMode: "set (handleErrMsgMode T m) \<subseteq> set m"
  by (auto simp add: handleErrMsgMode_def split: list.splits option.splits dest: map_of_SomeD [OF sym])


lemma handleErrMsgMode_Nil: "handleErrMsgMode T [] = []"
  by (simp add: handleErrMsgMode_def objectKeys_def)

lemma finish_norules:
  "\<not> sess_editRules s \<Longrightarrow>
     beginValidate_finish L T s st
       = (st, \<lparr>outcome = Resolved None, cb_calls = (if sess_cb s then [None] else [])\<rparr>)"
  by (simp add: beginValidate_finish_def)

lemma finish_pass:
  assumes "sess_editRules s"
    and "validRest (settleAll L T (sess_isFull s) (rowValidErrs s)) = []"
  shows "beginValidate_finish L T s st
       = (mergedState L T s st,
          \<lparr>outcome = Resolved None, cb_calls = (if sess_cb s then [None] else [])\<rparr>)"
proof -
  let ?c = "settleAll L T (sess_isFull s) (rowValidErrs s)"
  have inv: "settleInv L T (sess_isFull s) (concat (rowValidErrs s)) ?c"
    by (rule settleAll_inv)
  have "rejections ?c = []"
    using inv assms(2) unfolding settleInv_def by blast
  then show ?thesis
    using assms by (simp add: beginValidate_finish_def mergedState_def Let_def objectKeys_def)
qed

lemma finish_fail:
  assumes "sess_editRules s"
    and "validRest (settleAll L T (sess_isFull s) (rowValidErrs s)) \<noteq> []"
  shows "\<exists>p. (\<exists>x \<in> set (concat (rowValidErrs s)). cellFails x \<and> p = errParamsOf x)
           \<and> (\<forall>st. beginValidate_finish L T s st
               = catchValid L T (sess_cb s)
                   (validRest (settleAll L T (sess_isFull s) (rowValidErrs s))) p
                   (mergedState L T s st))"
proof -
  let ?c = "settleAll L T (sess_isFull s) (rowValidErrs s)"
  have inv: "settleInv L T (sess_isFull s) (concat (rowValidErrs s)) ?c"
    by (rule settleAll_inv)
  show ?thesis
  proof (cases "rejections ?c")
    case (Cons p ps)
    then have "p \<in> set (rejections ?c)" by simp
    then have "\<exists>x \<in> set (concat (rowValidErrs s)). cellFails x \<and> p = errParamsOf x"
      using inv unfolding settleInv_def by blast
    moreover have "\<forall>st. beginValidate_finish L T s st
        = catchValid L T (sess_cb s) (validRest ?c) p (mergedState L T s st)"
      using assms(1) Cons by (simp add: beginValidate_finish_def mergedState_def Let_def)
    ultimately show ?thesis by blast
  next
    case Nil
    obtain k ks where k: "objectKeys (validRest ?c) = k # ks"
      using assms(2) objectKeys_Nil [of "validRest ?c"] by (cases "objectKeys (validRest ?c)") auto
    then have "k \<in> fst ` set (validRest ?c)"
      using set_objectKeys [of "validRest ?c"] by (metis list.set_intros(1))
    then obtain ps where ps: "(k, ps) \<in> set (validRest ?c)" by auto
    have d: "distinct (map fst (validRest ?c))"
      using inv unfolding settleInv_def by blast
    have mo: "map_of (validRest ?c) k = Some ps"
      using d ps by simp
    have "ps \<noteq> []" using inv ps unfolding settleInv_def by blast
    then obtain p qs where pq: "ps = p # qs" by (cases ps) auto
    then have "p \<in> set ps" by simp
    then have "\<exists>x \<in> set (concat (rowValidErrs s)). cellFails x \<and> p = errParamsOf x"
      using inv ps unfolding settleInv_def by blast
    moreover have "\<forall>st. beginValidate_finish L T s st
        = catchValid L T (sess_cb s) (validRest ?c) p (mergedState L T s st)"
      using assms(1) Nil k mo pq by (simp add: beginValidate_finish_def mergedState_def Let_def)
    ultimately show ?thesis by blast
  qed
qed

lemma start_inv:
  assumes "beginValidate_start L T now rows cols cb isFull st = (st1, s)"
  shows "validErrorMaps st1 = []"
    and "lastCallTime st1 = now"
    and "\<forall>x \<in> set (concat (rowValidErrs s)).
           cell_row x \<in> set (visitOrder T (validList_of T rows)) \<and> \<not> skipRow T (cell_row x)"
    and "sess_isFull s = isFull"
    and "sess_editRules s = (editRules T \<noteq> None)"
proof -
  let ?st0 = "(st\<lparr>lastCallTime := now, validRuleErr := False\<rparr>)\<lparr>validErrorMaps := []\<rparr>"
  let ?columns = "case cols of Some cs \<Rightarrow> (if cs \<noteq> [] then cs else getColumns T)
                  | None \<Rightarrow> getColumns T"
  let ?w = "walkRows L T isFull ?columns (?st0, []) (visitOrder T (validList_of T rows))"
  have inv: "walkInv T ?st0 [] (visitOrder T (validList_of T rows)) ?w"
    by (rule walkRows_inv)
  have eq: "(st1, s) = (if editRules T \<noteq> None then
        (fst ?w, \<lparr>sess_editRules = True, sess_isFull = isFull,
            sess_cb = (if rows = RowsFunc then True else cb), rowValidErrs = snd ?w\<rparr>)
      else (?st0\<lparr>validErrorMaps := []\<rparr>,
            \<lparr>sess_editRules = False, sess_isFull = isFull,
             sess_cb = (if rows = RowsFunc then True else cb), rowValidErrs = []\<rparr>))"
    using assms unfolding beginValidate_start_def clearValidate_all Let_def by simp
  show "validErrorMaps st1 = []"
    using eq inv by (auto simp add: walkInv_def split: if_splits)
  show "lastCallTime st1 = now"
    using eq inv by (auto simp add: walkInv_def split: if_splits)
  show "\<forall>x \<in> set (concat (rowValidErrs s)).
           cell_row x \<in> set (visitOrder T (validList_of T rows)) \<and> \<not> skipRow T (cell_row x)"
    using eq inv by (auto simp add: walkInv_def split: if_splits)
  show "sess_isFull s = isFull"
    using eq by (auto split: if_splits)
  show "sess_editRules s = (editRules T \<noteq> None)"
    using eq by (auto split: if_splits)
qed

lemma mergedState_entries:
  assumes "(k, e) \<in> set (validErrorMaps (mergedState L T s st))"
  shows "(k, e) \<in> set (validErrorMaps st) \<or>
     (\<exists>x \<in> set (concat (rowValidErrs s)). cellFails x \<and> e = entryOf L (errParamsOf x)
                                            \<and> k = keyOf T (errParamsOf x))"
proof -
  let ?c = "settleAll L T (sess_isFull s) (rowValidErrs s)"
  have inv: "settleInv L T (sess_isFull s) (concat (rowValidErrs s)) ?c"
    by (rule settleAll_inv)
  have "(k, e) \<in> set (validErrorMaps st) \<or> (k, e) \<in> set (handleErrMsgMode T (validErrMaps ?c))"
    using assms by (auto simp add: mergedState_def Let_def split: if_splits)
  then have "(k, e) \<in> set (validErrorMaps st) \<or> (k, e) \<in> set (validErrMaps ?c)"
    using set_handleErrMsgMode [of T "validErrMaps ?c"] by blast
  then show ?thesis
    using inv unfolding settleInv_def by blast
qed

lemma finish_entries:
  assumes "(k, e) \<in> set (validErrorMaps (fst (beginValidate_finish L T s st)))"
  shows "(k, e) \<in> set (validErrorMaps st) \<or>
     (\<exists>x \<in> set (concat (rowValidErrs s)). cellFails x \<and> e = entryOf L (errParamsOf x)
                                            \<and> k = keyOf T (errParamsOf x))"
proof (cases "sess_editRules s")
  case False
  then show ?thesis using assms by (simp add: finish_norules)
next
  case True
  show ?thesis
  proof (cases "validRest (settleAll L T (sess_isFull s) (rowValidErrs s)) = []")
    case True
    then show ?thesis
      using assms \<open>sess_editRules s\<close> mergedState_entries [of k e L T s st]
      by (simp add: finish_pass)
  next
    case False
    obtain p where p: "\<exists>x \<in> set (concat (rowValidErrs s)). cellFails x \<and> p = errParamsOf x"
      and f: "beginValidate_finish L T s st
               = catchValid L T (sess_cb s)
                   (validRest (settleAll L T (sess_isFull s) (rowValidErrs s))) p
                   (mergedState L T s st)"
      using finish_fail [OF True False] by blast
    have "(k, e) \<in> set (validErrorMaps (mergedState L T s st)) \<or> (k, e) = (keyOf T p, entryOf L p)"
      using assms unfolding f catchValid_eq
      using set_obj_set [of "keyOf T p" "entryOf L p" "validErrorMaps (mergedState L T s st)"]
      by (auto split: if_splits)
    then show ?thesis
      using p mergedState_entries [of k e L T s st] by blast
  qed
qed

lemma visitColumn_full:
  "map (\<lambda>x. (cell_row x, cell_column x)) (snd (visitColumn L T True row (st, cs) col))
     = map (\<lambda>x. (cell_row x, cell_column x)) cs
       @ (if has_field (editRules T) (column_field col) then [(row, col)] else [])"
  by (simp add: visitColumn_def Let_def)

lemma foldl_visitColumn_full:
  "map (\<lambda>x. (cell_row x, cell_column x)) (snd (foldl (visitColumn L T True row) (st, cs) columns))
     = map (\<lambda>x. (cell_row x, cell_column x)) cs
       @ map (Pair row) (filter (\<lambda>c. has_field (editRules T) (column_field c)) columns)"
proof (induction columns arbitrary: st cs)
  case Nil
  then show ?case by simp
next
  case (Cons col columns)
  obtain st' cs' where v: "visitColumn L T True row (st, cs) col = (st', cs')"
    by (cases "visitColumn L T True row (st, cs) col")
  have "map (\<lambda>x. (cell_row x, cell_column x)) cs'
     = map (\<lambda>x. (cell_row x, cell_column x)) cs
       @ (if has_field (editRules T) (column_field col) then [(row, col)] else [])"
    using visitColumn_full [of L T row st cs col] v by simp
  then show ?case
    using Cons [of st' cs'] v by simp
qed

lemma handleVaild_full:
  "map (\<lambda>x. (cell_row x, cell_column x)) (concat (snd (handleVaild L T True columns (st, rws) row)))
     = map (\<lambda>x. (cell_row x, cell_column x)) (concat rws)
       @ (if skipRow T row then []
          else map (Pair row) (filter (\<lambda>c. has_field (editRules T) (column_field c)) columns))"
proof (cases "skipRow T row")
  case True
  then show ?thesis by (simp add: handleVaild_skip)
next
  case False
  obtain st' cs where f: "foldl (visitColumn L T True row) (st, []) columns = (st', cs)"
    by (cases "foldl (visitColumn L T True row) (st, []) columns")
  have "map (\<lambda>x. (cell_row x, cell_column x)) cs
     = map (Pair row) (filter (\<lambda>c. has_field (editRules T) (column_field c)) columns)"
    using foldl_visitColumn_full [of L T row st "[]" columns] f by simp
  moreover have "handleVaild L T True columns (st, rws) row = (st', rws @ [cs])"
    using False f by (simp add: handleVaild_def skipRow_def Let_def)
  ultimately show ?thesis using False by simp
qed

lemma walkRows_full:
  "map (\<lambda>x. (cell_row x, cell_column x)) (concat (snd (walkRows L T True columns (st, rws) rows)))
     = map (\<lambda>x. (cell_row x, cell_column x)) (concat rws)
       @ concat (map (\<lambda>row. map (Pair row)
                    (filter (\<lambda>c. has_field (editRules T) (column_field c)) columns))
           (filter (\<lambda>row. \<not> skipRow T row) rows))"
proof (induction rows arbitrary: st rws)
  case Nil
  then show ?case by (simp add: walkRows_Nil)
next
  case (Cons row rows)
  obtain st' rws' where h: "handleVaild L T True columns (st, rws) row = (st', rws')"
    by (cases "handleVaild L T True columns (st, rws) row")
  have "map (\<lambda>x. (cell_row x, cell_column x)) (concat rws')
     = map (\<lambda>x. (cell_row x, cell_column x)) (concat rws)
       @ (if skipRow T row then []
          else map (Pair row) (filter (\<lambda>c. has_field (editRules T) (column_field c)) columns))"
    using handleVaild_full [of L T columns st rws row] h by simp
  then show ?case
    using Cons [of st' rws'] h by (simp add: walkRows_Cons)
qed

lemma walkRows_snoc_cells:
  "\<exists>extra. concat (snd (walkRows L T isFull columns w (pre @ [r])))
            = concat (snd (walkRows L T isFull columns w pre)) @ extra
     \<and> (\<forall>x \<in> set extra. cell_row x = r)"
proof -
  obtain st rws where w: "walkRows L T isFull columns w pre = (st, rws)"
    by (cases "walkRows L T isFull columns w pre")
  from handleVaild_cases [of L T isFull columns st rws r]
  show ?thesis
  proof
    assume "handleVaild L T isFull columns (st, rws) r = (st, rws)"
    then show ?thesis
      by (simp add: walkRows_append w walkRows_Cons walkRows_Nil)
  next
    assume "\<exists>st' cs. handleVaild L T isFull columns (st, rws) r = (st', rws @ [cs])
      \<and> okCells st r st' cs \<and> \<not> skipRow T r"
    then obtain st' cs where "handleVaild L T isFull columns (st, rws) r = (st', rws @ [cs])"
      and "okCells st r st' cs"
      by blast
    then show ?thesis
      by (auto simp add: walkRows_append w walkRows_Cons walkRows_Nil okCells_def)
  qed
qed














section \<open>The rule evaluator: required, empty values and numbers\<close>

text \<open>
  C4. For a built-in rule and any cell value: a required rule fails on an empty value
  whatever its \<^verbatim>\<open>min\<close>, \<^verbatim>\<open>max\<close> and \<^verbatim>\<open>pattern\<close> are; a rule that is not required
  passes on an empty value whatever they are; and on a value that is not empty the
  result is that of the constraint checks of \<^verbatim>\<open>validRuleValue\<close>, required or not.
  A value is empty if it is an array without items, or else if \<^verbatim>\<open>eqEmptyValue\<close>
  holds of it.
\<close>

theorem checkRuleStatus_required_empty:
  "(required r \<and> isEmptyVal v \<longrightarrow> \<not> checkRuleStatus L r v) \<and>
   (\<not> required r \<and> isEmptyVal v \<longrightarrow> checkRuleStatus L r v) \<and>
   (\<not> isEmptyVal v \<longrightarrow> checkRuleStatus L r v = validRuleValue L r v (required r))"
  by (simp add: checkRuleStatus_def)

theorem checkRuleStatus_required_empty_witness:
  "\<forall>L. (required demoRequired \<and> isEmptyVal JNull \<and> \<not> checkRuleStatus L demoRequired JNull)
     \<and> (\<not> required (demoNumber False) \<and> isEmptyVal (JArr [])
          \<and> checkRuleStatus L (demoNumber False) (JArr []))
     \<and> (\<not> isEmptyVal (JStr ''a'')
          \<and> checkRuleStatus L demoRequired (JStr ''a'')
              = validRuleValue L demoRequired (JStr ''a'') (required demoRequired))"
  using checkRuleStatus_required_empty [where r = demoRequired and v = JNull]
    checkRuleStatus_required_empty [where r = "demoNumber False" and v = "JArr []"]
    checkRuleStatus_required_empty [where r = demoRequired and v = "JStr ''a''"]
  by (simp add: demo_defs isEmptyVal_def eqEmptyValue_def)

text \<open>
  C5, as stated: a rule of type \<^verbatim>\<open>number\<close> fails on every value that does not parse
  to a finite number, required or not. It does not: \<^verbatim>\<open>undefined\<close> converts to
  \<^verbatim>\<open>NaN\<close>, and a number rule that is not required passes on it, since the value is
  empty and an empty value is not checked.
\<close>

theorem number_rule_counterexample:
  "\<forall>L. type_rule (demoNumber False) = Some ''number''
     \<and> Number_js L JUndefined = NaN
     \<and> checkRuleStatus L (demoNumber False) JUndefined"
  by (simp add: demo_defs checkRuleStatus_def isEmptyVal_def eqEmptyValue_def)

text \<open>
  C5, amended: a rule of type \<^verbatim>\<open>number\<close> fails on every value whose conversion to a
  number is \<^verbatim>\<open>NaN\<close>, provided the rule is required or the value is not empty. (The
  test is \<^verbatim>\<open>isNaN\<close>: an infinite number is not rejected by it.)
\<close>

theorem number_rule_nan_fails:
  "type_rule r = Some ''number'' \<Longrightarrow> isNaN (Number_js L v)
     \<Longrightarrow> required r \<or> \<not> isEmptyVal v \<Longrightarrow> \<not> checkRuleStatus L r v"
  by (auto simp add: checkRuleStatus_def validRuleValue_def Let_def)

theorem number_rule_nan_fails_witness:
  "\<forall>L. type_rule (demoNumber False) = Some ''number''
     \<and> isNaN (Number_js L (JNum NaN))
     \<and> (required (demoNumber False) \<or> \<not> isEmptyVal (JNum NaN))
     \<and> \<not> checkRuleStatus L (demoNumber False) (JNum NaN)"
  using number_rule_nan_fails [where r = "demoNumber False" and v = "JNum NaN"]
  by (simp add: demo_defs isNaN_def isEmptyVal_def eqEmptyValue_def)

section \<open>Clearing the error map\<close>

text \<open>
  C1. In the multi-message mode, \<^verbatim>\<open>clearValidate\<close> with a row and no column should
  remove the entries of that row and keep the others, and with a column and no row it
  should remove the entries of that column. On a map with one entry for each of the
  rows \<^verbatim>\<open>r1\<close> and \<^verbatim>\<open>r2\<close>, both in the column of the field \<^verbatim>\<open>name\<close>, clearing the
  row \<^verbatim>\<open>r1\<close> keeps the entry of \<^verbatim>\<open>r1\<close> and removes that of \<^verbatim>\<open>r2\<close>, and clearing
  the column keeps both entries: the two branches copy the matching entries into the
  new map instead of leaving them out. Clearing the row and the column together
  removes the entry of \<^verbatim>\<open>r1\<close> and keeps the other one, as it should.
\<close>

theorem clearValidate_rows_only_keeps_matching:
  "validErrorMaps (clearValidate demoTable
       (demoState [(''r1:col_name'', demoEntry ''r1''), (''r2:col_name'', demoEntry ''r2'')])
       (demoRow ''r1'' []) FcNone)
     = [(''r1:col_name'', demoEntry ''r1'')]
   \<and> validErrorMaps (clearValidate demoTable
       (demoState [(''r1:col_name'', demoEntry ''r1''), (''r2:col_name'', demoEntry ''r2'')])
       JUndefined (FcOne (OfField ''name'')))
     = [(''r1:col_name'', demoEntry ''r1''), (''r2:col_name'', demoEntry ''r2'')]
   \<and> validErrorMaps (clearValidate demoTable
       (demoState [(''r1:col_name'', demoEntry ''r1''), (''r2:col_name'', demoEntry ''r2'')])
       (demoRow ''r1'' []) (FcOne (OfField ''name'')))
     = [(''r2:col_name'', demoEntry ''r2'')]"
  by (simp add: clearValidate_def demo_defs rowList_of_def colList_of_def validKey_def
      obj_delete_def)

section \<open>Validating fields without a field\<close>

text \<open>
  C10. \<^verbatim>\<open>validateField\<close> and \<^verbatim>\<open>fullValidateField\<close> with a field selector that is
  absent, falsy or an empty array resolve without a value and leave the whole state as
  it was: no cell is validated, the error map is not cleared, the flag and the time of
  the last call are not touched.
\<close>

theorem validateField_without_field:
  "validateField L T now rows FcNone st = (st, \<lparr>outcome = Resolved None, cb_calls = []\<rparr>) \<and>
   validateField L T now rows (FcOne (OfField [])) st
     = (st, \<lparr>outcome = Resolved None, cb_calls = []\<rparr>) \<and>
   validateField L T now rows (FcMany []) st
     = (st, \<lparr>outcome = Resolved None, cb_calls = []\<rparr>) \<and>
   fullValidateField L T now rows FcNone st
     = (st, \<lparr>outcome = Resolved None, cb_calls = []\<rparr>) \<and>
   fullValidateField L T now rows (FcOne (OfField [])) st
     = (st, \<lparr>outcome = Resolved None, cb_calls = []\<rparr>) \<and>
   fullValidateField L T now rows (FcMany []) st
     = (st, \<lparr>outcome = Resolved None, cb_calls = []\<rparr>)"
  by (simp add: validateField_def fullValidateField_def colList_of_def)

section \<open>Validators missing from the registry\<close>

text \<open>
  C8. Let a rule that applies name a validator which the registry does not know, or
  knows without a method for cells. (A name is a string that is not empty: the empty
  string is falsy, and a rule that has it for a validator has no validator.) Then \<^verbatim>\<open>validCellRules\<close> gives the cell the same
  failing rules, the same pending promises and the same flag as it would if the rule
  were not in the list of the field: the rule counts as passed and the rules after it
  are evaluated as usual. The only trace is the message \<^verbatim>\<open>vxe.error.notValidators\<close>
  in the log. The function is total: nothing is thrown.
\<close>

theorem validCellRules_unregistered:
  assumes "editRules T = Some rulesObj" and "column_field col = Some field" and "field \<noteq> []"
    and "map_of rulesObj field = Some (rs1 @ r # rs2)"
    and "validator r = Some (VName name)" and "name \<noteq> []" and "unregistered T name"
    and "applicable validType r"
  shows "sameButLog (validCellRules L T validType row col val st)
           (validCellRules L (T\<lparr>editRules := Some ((field, rs1 @ rs2) # rulesObj)\<rparr>)
              validType row col val st)
         \<and> (''vxe.error.notValidators'', [name])
              \<in> set (logged (acc_state (validCellRules L T validType row col val st)))"
proof -
  let ?T' = "T\<lparr>editRules := Some ((field, rs1 @ rs2) # rulesObj)\<rparr>"
  let ?v = "if val = JUndefined then get_field row field else val"
  let ?acc = "\<lparr>acc_state = st, errorRules = [], syncValidList = []\<rparr>"
  have a: "validCellRules L T validType row col val st
             = foldl (applyRule L T validType row col ?v) ?acc (rs1 @ r # rs2)"
    using assms(1-4) by (rule validCellRules_rules)
  have "validCellRules L ?T' validType row col val st
             = foldl (applyRule L ?T' validType row col ?v) ?acc (rs1 @ rs2)"
    by (rule validCellRules_rules [where rulesObj = "(field, rs1 @ rs2) # rulesObj" and field = field])
       (simp_all add: assms(2,3))
  then have b: "validCellRules L ?T' validType row col val st
             = foldl (applyRule L T validType row col ?v) ?acc (rs1 @ rs2)"
    by (simp add: foldl_applyRule_same_validators [of ?T' T])
  show ?thesis
    unfolding a b
    using foldl_applyRule_skip [OF assms(5,6,7,8), of L row col ?v ?acc rs1 rs2]
    by blast
qed

theorem validCellRules_unregistered_witness:
  "\<forall>L. editRules (demoTable\<lparr>editRules := Some [(''name'', [demoNamed, demoRequired])]\<rparr>)
          = Some [(''name'', [demoNamed, demoRequired])]
     \<and> column_field (demoColumn ''name'') = Some ''name'' \<and> ''name'' \<noteq> []
     \<and> map_of [(''name'', [demoNamed, demoRequired])] ''name''
          = Some ([] @ demoNamed # [demoRequired])
     \<and> validator demoNamed = Some (VName ''missing'') \<and> ''missing'' \<noteq> []
     \<and> unregistered (demoTable\<lparr>editRules := Some [(''name'', [demoNamed, demoRequired])]\<rparr>)
          ''missing''
     \<and> applicable ''all'' demoNamed
     \<and> sameButLog
          (validCellRules L (demoTable\<lparr>editRules := Some [(''name'', [demoNamed, demoRequired])]\<rparr>)
             ''all'' (demoRow ''r1'' []) (demoColumn ''name'') JUndefined (demoState []))
          (validCellRules L
             (demoTable\<lparr>editRules := Some [(''name'', [demoNamed, demoRequired])],
                editRules := Some ((''name'', [] @ [demoRequired])
                                   # [(''name'', [demoNamed, demoRequired])])\<rparr>)
             ''all'' (demoRow ''r1'' []) (demoColumn ''name'') JUndefined (demoState []))
     \<and> (''vxe.error.notValidators'', [''missing''])
          \<in> set (logged (acc_state
              (validCellRules L
                 (demoTable\<lparr>editRules := Some [(''name'', [demoNamed, demoRequired])]\<rparr>)
                 ''all'' (demoRow ''r1'' []) (demoColumn ''name'') JUndefined (demoState []))))"
  (is "\<forall>L. ?P L")
proof
  fix L
  have h1: "editRules (demoTable\<lparr>editRules := Some [(''name'', [demoNamed, demoRequired])]\<rparr>)
              = Some [(''name'', [demoNamed, demoRequired])]"
    by simp
  have h2: "column_field (demoColumn ''name'') = Some ''name''"
    by (simp add: demoColumn_def)
  have h3: "''name'' \<noteq> []" by simp
  have h4: "map_of [(''name'', [demoNamed, demoRequired])] ''name''
              = Some ([] @ demoNamed # [demoRequired])"
    by simp
  have h5: "validator demoNamed = Some (VName ''missing'')"
    by (simp add: demoNamed_def)
  have h6: "unregistered (demoTable\<lparr>editRules := Some [(''name'', [demoNamed, demoRequired])]\<rparr>)
              ''missing''"
    by (simp add: unregistered_def demoTable_def)
  have h7: "applicable ''all'' demoNamed"
    by (simp add: applicable_def)
  have h8: "''missing'' \<noteq> []" by simp
  show "?P L"
    using h1 h2 h3 h4 h5 h6 h7 h8
      validCellRules_unregistered [OF h1 h2 h3 h4 h5 h8 h6 h7, of L "demoRow ''r1'' []"
        JUndefined "demoState []"]
    by simp
qed

section \<open>How a failed session ends\<close>

text \<open>
  C2, as stated: without a callback, a session that ends with a failure rejects with
  the map of the failures. With the configuration of the example, where
  \<^verbatim>\<open>validToReject\<close> is not \<^verbatim>\<open>obsolete\<close>, \<^verbatim>\<open>validate\<close> without a callback on a row
  whose required field is empty resolves, and the map of the failures is the value.
\<close>

theorem failed_session_counterexample:
  "\<forall>L. snd (validate L demoTable 1 (RowsVal (demoRow ''r1'' [])) False (demoState []))
     = \<lparr>outcome = Resolved (Some [(''name'', [demoParams ''r1''])]), cb_calls = []\<rparr>"
  by (simp add: session_defs demo_defs demoParams_def)

text \<open>
  C2, amended. A session that ends with at least one failure hands the map of the
  failures to the callback and resolves without a value, if a callback was given; if
  none was given it resolves with the map, unless the global option \<^verbatim>\<open>validToReject\<close>
  is \<^verbatim>\<open>obsolete\<close>, in which case it rejects with the map. This holds in whatever state
  the session is settled.
\<close>

theorem failed_session_outcome:
  assumes "sess_editRules s"
    and "validRest (settleAll L T (sess_isFull s) (rowValidErrs s)) \<noteq> []"
  shows "snd (beginValidate_finish L T s st)
     = (if sess_cb s then
          \<lparr>outcome = Resolved None,
           cb_calls = [Some (validRest (settleAll L T (sess_isFull s) (rowValidErrs s)))]\<rparr>
        else if validToReject T = ''obsolete'' then
          \<lparr>outcome = Rejected (validRest (settleAll L T (sess_isFull s) (rowValidErrs s))),
           cb_calls = []\<rparr>
        else
          \<lparr>outcome = Resolved (Some (validRest (settleAll L T (sess_isFull s) (rowValidErrs s)))),
           cb_calls = []\<rparr>)"
  using finish_fail [OF assms]
  by (auto simp add: catchValid_eq finish_def)

theorem failed_session_outcome_witness:
  "\<forall>L. sess_editRules (demoSession False True [''r1''])
     \<and> validRest (settleAll L demoTable (sess_isFull (demoSession False True [''r1'']))
          (rowValidErrs (demoSession False True [''r1''])))
         \<noteq> []
     \<and> snd (beginValidate_finish L demoTable (demoSession False True [''r1'']) (demoState []))
         = \<lparr>outcome = Resolved None, cb_calls = [Some [(''name'', [demoParams ''r1''])]]\<rparr>"
  (is "\<forall>L. ?P L")
proof
  fix L
  have h1: "sess_editRules (demoSession False True [''r1''])"
    by (simp add: demoSession_def)
  have v: "validRest (settleAll L demoTable (sess_isFull (demoSession False True [''r1'']))
          (rowValidErrs (demoSession False True [''r1''])))
         = [(''name'', [demoParams ''r1''])]"
    by (simp add: demoSession_def settleAll_def settleCell_def obj_push_def demoParams_def Let_def)
  then have h2: "validRest (settleAll L demoTable (sess_isFull (demoSession False True [''r1'']))
          (rowValidErrs (demoSession False True [''r1''])))
         \<noteq> []"
    by simp
  show "?P L"
    using h1 h2 failed_session_outcome [OF h1 h2, of "demoState []"]
    by (simp add: v) (simp add: demoSession_def)
qed

section \<open>Rows that the walker skips\<close>

text \<open>
  C7. A row that is removed, pending deletion or an aggregate record is skipped by the
  walker: \<^verbatim>\<open>handleVaild\<close> returns at once, leaving the state and the list of
  dispatched cells as they were. Hence no cell that a session hands to
  \<^verbatim>\<open>validCellRules\<close> belongs to such a row, and no entry of the error map that a
  session leaves behind does.
\<close>

theorem skipped_rows:
  "(skipRow T row \<longrightarrow> handleVaild L T isFull columns w row = w)
   \<and> (\<forall>x \<in> set (concat (rowValidErrs (snd (beginValidate_start L T now rows cols cb isFull st)))).
        \<not> skipRow T (cell_row x))
   \<and> (\<forall>(k, e) \<in> set (validErrorMaps (fst (beginValidate L T now rows cols cb isFull st))).
        \<not> skipRow T (entry_row e))"
proof (intro conjI)
  show "skipRow T row \<longrightarrow> handleVaild L T isFull columns w row = w"
    by (simp add: handleVaild_skip)
  obtain st1 s where b: "beginValidate_start L T now rows cols cb isFull st = (st1, s)"
    by (cases "beginValidate_start L T now rows cols cb isFull st")
  note inv = start_inv [OF b]
  show "\<forall>x \<in> set (concat (rowValidErrs (snd (beginValidate_start L T now rows cols cb isFull st)))).
        \<not> skipRow T (cell_row x)"
    using inv(3) by (simp add: b)
  show "\<forall>(k, e) \<in> set (validErrorMaps (fst (beginValidate L T now rows cols cb isFull st))).
        \<not> skipRow T (entry_row e)"
  proof (clarify)
    fix k e
    assume "(k, e) \<in> set (validErrorMaps (fst (beginValidate L T now rows cols cb isFull st)))"
      and sk: "skipRow T (entry_row e)"
    then have "(k, e) \<in> set (validErrorMaps (fst (beginValidate_finish L T s st1)))"
      by (simp add: beginValidate_def b)
    then have "\<exists>x \<in> set (concat (rowValidErrs s)). cellFails x \<and> e = entryOf L (errParamsOf x)
                                            \<and> k = keyOf T (errParamsOf x)"
      using finish_entries [of k e L T s st1] inv(1) by simp
    then obtain x where x: "x \<in> set (concat (rowValidErrs s))" "e = entryOf L (errParamsOf x)"
      by blast
    have "entry_row e = cell_row x"
      using x(2) by (simp add: entryOf_def errParamsOf_def)
    then show False
      using inv(3) sk x(1) by auto
  qed
qed

theorem skipped_rows_witness:
  "\<forall>L. skipRow (demoTable\<lparr>removeRowMaps := (\<lambda>rowid. rowid = ''r2'')\<rparr>) (demoRow ''r2'' [])
     \<and> \<not> skipRow (demoTable\<lparr>removeRowMaps := (\<lambda>rowid. rowid = ''r2'')\<rparr>) (demoRow ''r1'' [])
     \<and> map cell_row (concat (rowValidErrs (snd (beginValidate_start L
          (demoTable\<lparr>removeRowMaps := (\<lambda>rowid. rowid = ''r2'')\<rparr>) 1
          (RowsVal (JArr [demoRow ''r2'' [], demoRow ''r1'' []])) None False True (demoState [])))))
        = [demoRow ''r1'' []]
     \<and> map (\<lambda>(k, e). entry_row e) (validErrorMaps (fst (beginValidate L
          (demoTable\<lparr>removeRowMaps := (\<lambda>rowid. rowid = ''r2'')\<rparr>) 1
          (RowsVal (JArr [demoRow ''r2'' [], demoRow ''r1'' []])) None False True (demoState []))))
        = [demoRow ''r1'' []]"
  using skipped_rows [of "demoTable\<lparr>removeRowMaps := (\<lambda>rowid. rowid = ''r2'')\<rparr>"
      "demoRow ''r2'' []" _ True "[]" "(demoState [], [])" 1
      "RowsVal (JArr [demoRow ''r2'' [], demoRow ''r1'' []])" None False "demoState []"]
  by (simp add: session_defs demo_defs skipRow_def)

section \<open>Fail-fast and exhaustive validation\<close>

text \<open>
  C3. Let the rows be visited in the order \<^verbatim>\<open>pre\<close>, \<^verbatim>\<open>r\<close>, \<^verbatim>\<open>post\<close>, and let the
  shared flag be tripped once \<^verbatim>\<open>r\<close> has been visited in the fail-fast mode. Then the
  rows of \<^verbatim>\<open>post\<close> are not evaluated: the walk ends with the state and the cells it
  had after \<^verbatim>\<open>r\<close>. If moreover no cell of an earlier row fails, so that \<^verbatim>\<open>r\<close> is the
  first failing row, every entry of the error map of the session and every failure it
  returns belongs to \<^verbatim>\<open>r\<close>. In the exhaustive mode, on the same rows, every column
  that has rules is validated for every row that is not skipped, and every cell that
  fails has its entry in the error map of the session and its record among the
  failures returned. (The flag is tripped by a rule that fails at once. A promise
  handed out before is still awaited, and if it is rejected its failure is recorded
  with the row it belongs to.)
\<close>

theorem fail_fast_and_exhaustive:
  assumes "validRuleErr (fst (walkRows L T False columns (st, []) (pre @ [r])))"
  shows "walkRows L T False columns (st, []) (pre @ r # post)
           = walkRows L T False columns (st, []) (pre @ [r])
     \<and> ((\<forall>x \<in> set (concat (snd (walkRows L T False columns (st, []) pre))). \<not> cellFails x)
          \<longrightarrow> (\<forall>(k, e) \<in> set (validErrMaps (settleAll L T False
                    (snd (walkRows L T False columns (st, []) (pre @ r # post))))).
                  entry_row e = r)
             \<and> (\<forall>(f, ps) \<in> set (validRest (settleAll L T False
                    (snd (walkRows L T False columns (st, []) (pre @ r # post))))).
                  \<forall>p \<in> set ps. err_row p = r))
     \<and> map (\<lambda>x. (cell_row x, cell_column x))
          (concat (snd (walkRows L T True columns (st, []) (pre @ r # post))))
         = concat (map (\<lambda>row. map (Pair row)
                      (filter (\<lambda>c. has_field (editRules T) (column_field c)) columns))
             (filter (\<lambda>row. \<not> skipRow T row) (pre @ r # post)))
     \<and> (\<forall>x \<in> set (concat (snd (walkRows L T True columns (st, []) (pre @ r # post)))).
          cellFails x \<longrightarrow>
            validKey T (cell_row x) (cell_column x)
              \<in> fst ` set (validErrMaps (settleAll L T True
                    (snd (walkRows L T True columns (st, []) (pre @ r # post)))))
            \<and> (\<exists>ps. (cell_field x, ps)
                      \<in> set (validRest (settleAll L T True
                            (snd (walkRows L T True columns (st, []) (pre @ r # post)))))
                   \<and> errParamsOf x \<in> set ps))"
proof (intro conjI)
  let ?w = "walkRows L T False columns (st, [])"
  have "?w (pre @ r # post) = walkRows L T False columns (?w (pre @ [r])) post"
    using walkRows_append [of L T False columns "(st, [])" "pre @ [r]" post] by simp
  then show eq: "?w (pre @ r # post) = ?w (pre @ [r])"
    using assms by (simp add: walkRows_tripped)
  show "(\<forall>x \<in> set (concat (snd (?w pre))). \<not> cellFails x)
          \<longrightarrow> (\<forall>(k, e) \<in> set (validErrMaps (settleAll L T False (snd (?w (pre @ r # post))))).
                  entry_row e = r)
             \<and> (\<forall>(f, ps) \<in> set (validRest (settleAll L T False (snd (?w (pre @ r # post))))).
                  \<forall>p \<in> set ps. err_row p = r)"
  proof
    assume nf: "\<forall>x \<in> set (concat (snd (?w pre))). \<not> cellFails x"
    obtain extra where ex: "concat (snd (?w (pre @ [r]))) = concat (snd (?w pre)) @ extra"
      "\<forall>x \<in> set extra. cell_row x = r"
      using walkRows_snoc_cells [of L T False columns "(st, [])" pre r] by blast
    have rows: "\<forall>x \<in> set (concat (snd (?w (pre @ r # post)))). cellFails x \<longrightarrow> cell_row x = r"
      unfolding eq ex(1) using nf ex(2) by auto
    have inv: "settleInv L T False (concat (snd (?w (pre @ r # post))))
                 (settleAll L T False (snd (?w (pre @ r # post))))"
      by (rule settleAll_inv)
    have a: "\<forall>(k, e) \<in> set (validErrMaps (settleAll L T False (snd (?w (pre @ r # post))))).
                  entry_row e = r"
    proof (clarify)
      fix k e
      assume "(k, e) \<in> set (validErrMaps (settleAll L T False (snd (?w (pre @ r # post)))))"
      then obtain x where "x \<in> set (concat (snd (?w (pre @ r # post))))" "cellFails x"
          "e = entryOf L (errParamsOf x)"
        using inv unfolding settleInv_def by blast
      then show "entry_row e = r"
        using rows by (simp add: entryOf_def errParamsOf_def)
    qed
    have b: "\<forall>(f, ps) \<in> set (validRest (settleAll L T False (snd (?w (pre @ r # post))))).
                  \<forall>p \<in> set ps. err_row p = r"
    proof (clarify)
      fix f ps p
      assume "(f, ps) \<in> set (validRest (settleAll L T False (snd (?w (pre @ r # post)))))"
        and "p \<in> set ps"
      then obtain x where "x \<in> set (concat (snd (?w (pre @ r # post))))" "cellFails x"
          "p = errParamsOf x"
        using inv unfolding settleInv_def by blast
      then show "err_row p = r"
        using rows by (simp add: errParamsOf_def)
    qed
    from a b show "(\<forall>(k, e) \<in> set (validErrMaps (settleAll L T False (snd (?w (pre @ r # post))))).
                  entry_row e = r)
             \<and> (\<forall>(f, ps) \<in> set (validRest (settleAll L T False (snd (?w (pre @ r # post))))).
                  \<forall>p \<in> set ps. err_row p = r)"
      by blast
  qed
  show "map (\<lambda>x. (cell_row x, cell_column x))
          (concat (snd (walkRows L T True columns (st, []) (pre @ r # post))))
         = concat (map (\<lambda>row. map (Pair row)
                      (filter (\<lambda>c. has_field (editRules T) (column_field c)) columns))
             (filter (\<lambda>row. \<not> skipRow T row) (pre @ r # post)))"
    using walkRows_full [of L T columns st "[]" "pre @ r # post"] by simp
  let ?f = "walkRows L T True columns (st, []) (pre @ r # post)"
  have inv: "settleInv L T True (concat (snd ?f)) (settleAll L T True (snd ?f))"
    by (rule settleAll_inv)
  show "\<forall>x \<in> set (concat (snd ?f)).
          cellFails x \<longrightarrow>
            validKey T (cell_row x) (cell_column x)
              \<in> fst ` set (validErrMaps (settleAll L T True (snd ?f)))
            \<and> (\<exists>ps. (cell_field x, ps) \<in> set (validRest (settleAll L T True (snd ?f)))
                   \<and> errParamsOf x \<in> set ps)"
  proof (intro ballI impI)
    fix x assume "x \<in> set (concat (snd ?f))" "cellFails x"
    then have "keyOf T (errParamsOf x) \<in> fst ` set (validErrMaps (settleAll L T True (snd ?f)))
            \<and> (\<exists>ps. (cell_field x, ps) \<in> set (validRest (settleAll L T True (snd ?f)))
                   \<and> errParamsOf x \<in> set ps)"
      using inv unfolding settleInv_def by blast
    then show "validKey T (cell_row x) (cell_column x)
              \<in> fst ` set (validErrMaps (settleAll L T True (snd ?f)))
            \<and> (\<exists>ps. (cell_field x, ps) \<in> set (validRest (settleAll L T True (snd ?f)))
                   \<and> errParamsOf x \<in> set ps)"
      by (simp add: keyOf_def errParamsOf_def)
  qed
qed


theorem fail_fast_and_exhaustive_witness:
  "\<forall>L. validRuleErr (fst (walkRows L demoTable False [demoColumn ''name''] (demoState [], [])
            ([demoRow ''r0'' ''ok''] @ [demoRow ''r1'' []])))
     \<and> (\<forall>x \<in> set (concat (snd (walkRows L demoTable False [demoColumn ''name'']
                 (demoState [], []) [demoRow ''r0'' ''ok'']))). \<not> cellFails x)
     \<and> map cell_row (concat (snd (walkRows L demoTable False [demoColumn ''name'']
            (demoState [], []) ([demoRow ''r0'' ''ok''] @ demoRow ''r1'' [] # [demoRow ''r2'' []]))))
         = [demoRow ''r0'' ''ok'', demoRow ''r1'' []]
     \<and> map cell_row (concat (snd (walkRows L demoTable True [demoColumn ''name'']
            (demoState [], []) ([demoRow ''r0'' ''ok''] @ demoRow ''r1'' [] # [demoRow ''r2'' []]))))
         = [demoRow ''r0'' ''ok'', demoRow ''r1'' [], demoRow ''r2'' []]
     \<and> failuresOf (snd (validate L demoTable 1
            (RowsVal (JArr [demoRow ''r0'' ''ok'', demoRow ''r1'' [], demoRow ''r2'' []]))
            False (demoState [])))
         = [(''name'', [demoParams ''r1''])]
     \<and> failuresOf (snd (fullValidate L demoTable 1
            (RowsVal (JArr [demoRow ''r0'' ''ok'', demoRow ''r1'' [], demoRow ''r2'' []]))
            False (demoState [])))
         = [(''name'', [demoParams ''r1'', demoParams ''r2''])]"
  using fail_fast_and_exhaustive [of _ demoTable "[demoColumn ''name'']" "demoState []"
      "[demoRow ''r0'' ''ok'']" "demoRow ''r1'' []" "[demoRow ''r2'' []]"]
  by (simp add: session_defs demo_defs demoParams_def failuresOf_def cellFails_def cellRules_def)

section \<open>The single-message mode\<close>




section \<open>Sessions that overlap\<close>




end
